theory Spec2Isabelle
  imports Main "HOL-Library.Sublist"
begin

section \<open>Entity records\<close>

text \<open>
  The dataclasses of \<^verbatim>\<open>registry.py\<close>. A \<^verbatim>\<open>datetime\<close> is a point in time, kept as an
  \<^typ>\<open>int\<close>; the JSON value of \<^verbatim>\<open>instance_statistics\<close> is kept as its text. The field
  \<^verbatim>\<open>integrity_ok: bool = True\<close> is only ever assigned \<^verbatim>\<open>False\<close>, so both tests the
  source makes on it (\<^verbatim>\<open>is not False\<close> in \<^verbatim>\<open>valid_entries\<close>, \<^verbatim>\<open>is True\<close> in
  \<^verbatim>\<open>_run_insert\<close>) read the same boolean.
\<close>

record ActionKey =
  uuid :: string
  organization_id :: string
  type :: string
  hash :: string
  created_at :: int
  integrity_ok :: bool

record AuditEntry =
  type :: string
  organization_id :: string
  instance_statistics :: string
  package_id :: string
  created_at :: int
  integrity_ok :: bool

record Organization =
  organization_id :: string
  name :: string
  description :: string
  email :: string
  role :: string
  token :: string
  active :: bool
  logo :: string
  created_at :: int
  updated_at :: int
  integrity_ok :: bool

text \<open>
  Modelled from the spec: the classes \<^verbatim>\<open>Package\<close>, \<^verbatim>\<open>Template\<close>, \<^verbatim>\<open>TemplateAsset\<close> and
  \<^verbatim>\<open>TemplateFile\<close> are imported from \<^verbatim>\<open>dsw2to3.migration.entitites\<close>, which is not part of
  the sources at hand. The records below hold the attributes \<^verbatim>\<open>registry.py\<close> reads from
  them (the three optional package references, \<^verbatim>\<open>template_id\<close>, \<^verbatim>\<open>uuid\<close>,
  \<^verbatim>\<open>original_uuid\<close>, \<^verbatim>\<open>content_type\<close>, \<^verbatim>\<open>integrity_ok\<close>) and the identity the spec's data
  model gives each kind (package id, template id, uuid).
\<close>

record Package =
  package_id :: string
  previous_package_id :: "string option"
  fork_of_package_id :: "string option"
  merge_checkpoint_package_id :: "string option"
  integrity_ok :: bool

record Template =
  template_id :: string
  integrity_ok :: bool

record TemplateAsset =
  uuid :: string
  original_uuid :: string
  template_id :: string
  content_type :: string
  integrity_ok :: bool

record TemplateFile =
  uuid :: string
  template_id :: string
  integrity_ok :: bool

subsection \<open>Identities\<close>

text \<open>
  \<^verbatim>\<open>get_id\<close> of every kind but \<^verbatim>\<open>AuditEntry\<close> reads a stored field.
  \<^verbatim>\<open>AuditEntry.get_id\<close> returns \<^verbatim>\<open>f'{self.organization_id}_{uuid.uuid4()}'\<close>: the random
  source is a stream \<open>uuid4 :: nat \<Rightarrow> string\<close> of the tokens it will hand out, and a counter
  of the calls made so far, which every call advances.
\<close>

definition ActionKey_get_id :: "ActionKey \<Rightarrow> string" where
  "ActionKey_get_id x = ActionKey.uuid x"

definition AuditEntry_get_id :: "(nat \<Rightarrow> string) \<Rightarrow> AuditEntry \<Rightarrow> nat \<Rightarrow> string \<times> nat" where
  "AuditEntry_get_id uuid4 x k = (AuditEntry.organization_id x @ ''_'' @ uuid4 k, Suc k)"

definition Organization_get_id :: "Organization \<Rightarrow> string" where
  "Organization_get_id x = Organization.organization_id x"

definition Package_get_id :: "Package \<Rightarrow> string" where
  "Package_get_id x = Package.package_id x"

definition Template_get_id :: "Template \<Rightarrow> string" where
  "Template_get_id x = Template.template_id x"

definition TemplateAsset_get_id :: "TemplateAsset \<Rightarrow> string" where
  "TemplateAsset_get_id x = TemplateAsset.uuid x"

definition TemplateFile_get_id :: "TemplateFile \<Rightarrow> string" where
  "TemplateFile_get_id x = TemplateFile.uuid x"

text \<open>A \<^verbatim>\<open>get_id\<close> that reads a field leaves the random source alone.\<close>

definition stored :: "('a \<Rightarrow> string) \<Rightarrow> 'a \<Rightarrow> nat \<Rightarrow> string \<times> nat" where
  "stored f x k = (f x, k)"

section \<open>The integrity checker\<close>

text \<open>
  \<^verbatim>\<open>RegistryEntities\<close>: one list per entity kind, the list \<^verbatim>\<open>_result\<close> of violation
  messages, and the number of \<^verbatim>\<open>uuid.uuid4()\<close> calls made so far.
\<close>

record RegistryEntities =
  action_keys :: "ActionKey list"
  audit_entries :: "AuditEntry list"
  organizations :: "Organization list"
  packages :: "Package list"
  templates :: "Template list"
  template_assets :: "TemplateAsset list"
  template_files :: "TemplateFile list"
  result :: "string list"
  uuid4_calls :: nat

text \<open>\<^verbatim>\<open>valid_entries\<close>: the entries whose marker is not \<^verbatim>\<open>False\<close>, in list order.\<close>

definition valid_entries :: "('a \<Rightarrow> bool) \<Rightarrow> 'a list \<Rightarrow> 'a list" where
  "valid_entries ok xs = filter ok xs"

text \<open>The two message formats: \<^verbatim>\<open>f'Duplicate ID for {entity.__name__}: {item_id}'\<close> and
  \<^verbatim>\<open>f'Missing {target_entity.__name__} ({field_name}={ref_id}) for {entity.__name__}: {item.get_id()}'\<close>.\<close>

definition duplicate_message :: "string \<Rightarrow> string \<Rightarrow> string" where
  "duplicate_message nm item_id = ''Duplicate ID for '' @ nm @ '': '' @ item_id"

definition missing_message :: "string \<Rightarrow> string \<Rightarrow> string \<Rightarrow> string \<Rightarrow> string \<Rightarrow> string" where
  "missing_message target field_name ref_id nm item_id =
     ''Missing '' @ target @ '' ('' @ field_name @ ''='' @ ref_id @ '') for '' @ nm @ '': '' @ item_id"

text \<open>
  The loop of \<^verbatim>\<open>_check_uniqueness\<close> over one list. Arguments: the entity's \<^verbatim>\<open>__name__\<close>,
  its \<^verbatim>\<open>get_id\<close>, the assignment \<^verbatim>\<open>item.integrity_ok = False\<close>, the items still to scan,
  \<^verbatim>\<open>unique_set\<close>, \<^verbatim>\<open>_result\<close> and the random source's counter. Every item is scanned,
  whatever its marker.
\<close>

fun check_uniqueness_loop ::
  "string \<Rightarrow> ('a \<Rightarrow> nat \<Rightarrow> string \<times> nat) \<Rightarrow> ('a \<Rightarrow> 'a) \<Rightarrow> 'a list \<Rightarrow> string set \<Rightarrow>
     string list \<Rightarrow> nat \<Rightarrow> 'a list \<times> string list \<times> nat" where
  "check_uniqueness_loop nm gid inval [] unique_set res k = ([], res, k)"
| "check_uniqueness_loop nm gid inval (item # items) unique_set res k =
     (case gid item k of (item_id, k') \<Rightarrow>
        if item_id \<in> unique_set
        then (case check_uniqueness_loop nm gid inval items (insert item_id unique_set)
                     (res @ [duplicate_message nm item_id]) k' of
                (items', res', k'') \<Rightarrow> (inval item # items', res', k''))
        else (case check_uniqueness_loop nm gid inval items (insert item_id unique_set) res k' of
                (items', res', k'') \<Rightarrow> (item # items', res', k'')))"

text \<open>
  \<^verbatim>\<open>_check_uniqueness(list_name, entity)\<close>: \<open>getl\<close> and \<open>setl\<close> read and write the
  attribute \<^verbatim>\<open>list_name\<close>.
\<close>

definition check_uniqueness ::
  "(RegistryEntities \<Rightarrow> 'a list) \<Rightarrow> ('a list \<Rightarrow> RegistryEntities \<Rightarrow> RegistryEntities) \<Rightarrow>
     string \<Rightarrow> ('a \<Rightarrow> nat \<Rightarrow> string \<times> nat) \<Rightarrow> ('a \<Rightarrow> 'a) \<Rightarrow> RegistryEntities \<Rightarrow> RegistryEntities" where
  "check_uniqueness getl setl nm gid inval s =
     (case check_uniqueness_loop nm gid inval (getl s) {} (result s) (uuid4_calls s) of
        (items, res, k) \<Rightarrow> (setl items s)\<lparr>result := res, uuid4_calls := k\<rparr>)"

text \<open>\<^verbatim>\<open>_make_ids_set\<close>: the identities of the valid entries of one kind.\<close>

definition make_ids_set :: "('a \<Rightarrow> bool) \<Rightarrow> ('a \<Rightarrow> string) \<Rightarrow> 'a list \<Rightarrow> string set" where
  "make_ids_set ok gid xs = set (map gid (valid_entries ok xs))"

text \<open>
  The loop of \<^verbatim>\<open>_check_reference\<close> over one list: \<open>nm\<close> and \<open>target\<close> are the two
  \<^verbatim>\<open>__name__\<close>s, \<open>field\<close> reads \<^verbatim>\<open>getattr(item, field_name)\<close>. The generator
  \<^verbatim>\<open>valid_entries\<close> tests each item's marker when the loop reaches it, so an item whose
  marker is \<^verbatim>\<open>False\<close> is passed over.
\<close>

fun check_reference_loop ::
  "string \<Rightarrow> string \<Rightarrow> string \<Rightarrow> ('a \<Rightarrow> bool) \<Rightarrow> ('a \<Rightarrow> 'a) \<Rightarrow> ('a \<Rightarrow> string) \<Rightarrow> ('a \<Rightarrow> string) \<Rightarrow>
     string set \<Rightarrow> 'a list \<Rightarrow> string list \<Rightarrow> 'a list \<times> string list" where
  "check_reference_loop nm target field_name ok inval gid field ids_set [] res = ([], res)"
| "check_reference_loop nm target field_name ok inval gid field ids_set (item # items) res =
     (if ok item \<and> field item \<notin> ids_set
      then (case check_reference_loop nm target field_name ok inval gid field ids_set items
                   (res @ [missing_message target field_name (field item) nm (gid item)]) of
              (items', res') \<Rightarrow> (inval item # items', res'))
      else (case check_reference_loop nm target field_name ok inval gid field ids_set items res of
              (items', res') \<Rightarrow> (item # items', res')))"

text \<open>The loop of \<^verbatim>\<open>_check_optional_reference\<close>: \<^verbatim>\<open>None\<close> is never missing.\<close>

fun check_optional_reference_loop ::
  "string \<Rightarrow> string \<Rightarrow> string \<Rightarrow> ('a \<Rightarrow> bool) \<Rightarrow> ('a \<Rightarrow> 'a) \<Rightarrow> ('a \<Rightarrow> string) \<Rightarrow>
     ('a \<Rightarrow> string option) \<Rightarrow> string set \<Rightarrow> 'a list \<Rightarrow> string list \<Rightarrow> 'a list \<times> string list" where
  "check_optional_reference_loop nm target field_name ok inval gid field ids_set [] res = ([], res)"
| "check_optional_reference_loop nm target field_name ok inval gid field ids_set (item # items) res =
     (case (ok item, field item) of
        (True, Some ref_id) \<Rightarrow>
          if ref_id \<notin> ids_set
          then (case check_optional_reference_loop nm target field_name ok inval gid field ids_set items
                       (res @ [missing_message target field_name ref_id nm (gid item)]) of
                  (items', res') \<Rightarrow> (inval item # items', res'))
          else (case check_optional_reference_loop nm target field_name ok inval gid field ids_set items res of
                  (items', res') \<Rightarrow> (item # items', res'))
      | _ \<Rightarrow> (case check_optional_reference_loop nm target field_name ok inval gid field ids_set items res of
                  (items', res') \<Rightarrow> (item # items', res')))"

text \<open>The assignment \<^verbatim>\<open>item.integrity_ok = False\<close>, kind by kind.\<close>

definition ActionKey_invalidate :: "ActionKey \<Rightarrow> ActionKey" where
  "ActionKey_invalidate x = x\<lparr>ActionKey.integrity_ok := False\<rparr>"

definition AuditEntry_invalidate :: "AuditEntry \<Rightarrow> AuditEntry" where
  "AuditEntry_invalidate x = x\<lparr>AuditEntry.integrity_ok := False\<rparr>"

definition Organization_invalidate :: "Organization \<Rightarrow> Organization" where
  "Organization_invalidate x = x\<lparr>Organization.integrity_ok := False\<rparr>"

definition Package_invalidate :: "Package \<Rightarrow> Package" where
  "Package_invalidate x = x\<lparr>Package.integrity_ok := False\<rparr>"

definition Template_invalidate :: "Template \<Rightarrow> Template" where
  "Template_invalidate x = x\<lparr>Template.integrity_ok := False\<rparr>"

definition TemplateAsset_invalidate :: "TemplateAsset \<Rightarrow> TemplateAsset" where
  "TemplateAsset_invalidate x = x\<lparr>TemplateAsset.integrity_ok := False\<rparr>"

definition TemplateFile_invalidate :: "TemplateFile \<Rightarrow> TemplateFile" where
  "TemplateFile_invalidate x = x\<lparr>TemplateFile.integrity_ok := False\<rparr>"

text \<open>
  \<^verbatim>\<open>_check_reference(entity, target_entity, field_name, ids_set)\<close> and
  \<^verbatim>\<open>_check_optional_reference\<close> on the whole state: \<open>getl\<close> and \<open>setl\<close> read and write
  \<^verbatim>\<open>list_by_entity(entity)\<close>.
\<close>

definition check_reference ::
  "(RegistryEntities \<Rightarrow> 'a list) \<Rightarrow> ('a list \<Rightarrow> RegistryEntities \<Rightarrow> RegistryEntities) \<Rightarrow>
     string \<Rightarrow> string \<Rightarrow> string \<Rightarrow> ('a \<Rightarrow> bool) \<Rightarrow> ('a \<Rightarrow> 'a) \<Rightarrow> ('a \<Rightarrow> string) \<Rightarrow> ('a \<Rightarrow> string) \<Rightarrow>
     string set \<Rightarrow> RegistryEntities \<Rightarrow> RegistryEntities" where
  "check_reference getl setl nm target field_name ok inval gid field ids_set s =
     (case check_reference_loop nm target field_name ok inval gid field ids_set (getl s) (result s) of
        (items, res) \<Rightarrow> (setl items s)\<lparr>result := res\<rparr>)"

definition check_optional_reference ::
  "(RegistryEntities \<Rightarrow> 'a list) \<Rightarrow> ('a list \<Rightarrow> RegistryEntities \<Rightarrow> RegistryEntities) \<Rightarrow>
     string \<Rightarrow> string \<Rightarrow> string \<Rightarrow> ('a \<Rightarrow> bool) \<Rightarrow> ('a \<Rightarrow> 'a) \<Rightarrow> ('a \<Rightarrow> string) \<Rightarrow>
     ('a \<Rightarrow> string option) \<Rightarrow> string set \<Rightarrow> RegistryEntities \<Rightarrow> RegistryEntities" where
  "check_optional_reference getl setl nm target field_name ok inval gid field ids_set s =
     (case check_optional_reference_loop nm target field_name ok inval gid field ids_set (getl s) (result s) of
        (items, res) \<Rightarrow> (setl items s)\<lparr>result := res\<rparr>)"

text \<open>The six checks of a reference pass, as \<^verbatim>\<open>_check_references\<close> calls them.\<close>

definition check_ActionKey_organization_id :: "string set \<Rightarrow> RegistryEntities \<Rightarrow> RegistryEntities" where
  "check_ActionKey_organization_id user_ids =
     check_reference action_keys (\<lambda>l s. s\<lparr>action_keys := l\<rparr>)
       ''ActionKey'' ''Organization'' ''organization_id''
       ActionKey.integrity_ok ActionKey_invalidate ActionKey_get_id ActionKey.organization_id user_ids"

definition check_Package_reference ::
  "string \<Rightarrow> (Package \<Rightarrow> string option) \<Rightarrow> string set \<Rightarrow> RegistryEntities \<Rightarrow> RegistryEntities" where
  "check_Package_reference field_name field package_ids =
     check_optional_reference packages (\<lambda>l s. s\<lparr>packages := l\<rparr>)
       ''Package'' ''Package'' field_name
       Package.integrity_ok Package_invalidate Package_get_id field package_ids"

definition check_TemplateAsset_template_id :: "string set \<Rightarrow> RegistryEntities \<Rightarrow> RegistryEntities" where
  "check_TemplateAsset_template_id template_ids =
     check_reference template_assets (\<lambda>l s. s\<lparr>template_assets := l\<rparr>)
       ''TemplateAsset'' ''Template'' ''template_id''
       TemplateAsset.integrity_ok TemplateAsset_invalidate TemplateAsset_get_id
       TemplateAsset.template_id template_ids"

definition check_TemplateFile_template_id :: "string set \<Rightarrow> RegistryEntities \<Rightarrow> RegistryEntities" where
  "check_TemplateFile_template_id template_ids =
     check_reference template_files (\<lambda>l s. s\<lparr>template_files := l\<rparr>)
       ''TemplateFile'' ''Template'' ''template_id''
       TemplateFile.integrity_ok TemplateFile_invalidate TemplateFile_get_id
       TemplateFile.template_id template_ids"

text \<open>
  \<^verbatim>\<open>_check_references\<close>: the three id sets are built once, before any check of the pass;
  the six checks run in the source's order, each on the state the one before it left. The
  result is \<^verbatim>\<open>prev_len != len(self._result)\<close> and the new state.
\<close>

definition check_references :: "RegistryEntities \<Rightarrow> bool \<times> RegistryEntities" where
  "check_references s =
     (let prev_len = length (result s);
          user_ids = make_ids_set Organization.integrity_ok Organization_get_id (organizations s);
          package_ids = make_ids_set Package.integrity_ok Package_get_id (packages s);
          template_ids = make_ids_set Template.integrity_ok Template_get_id (templates s);
          s1 = check_ActionKey_organization_id user_ids s;
          s2 = check_Package_reference ''previous_package_id'' Package.previous_package_id package_ids s1;
          s3 = check_Package_reference ''fork_of_package_id'' Package.fork_of_package_id package_ids s2;
          s4 = check_Package_reference ''merge_checkpoint_package_id''
                 Package.merge_checkpoint_package_id package_ids s3;
          s5 = check_TemplateAsset_template_id template_ids s4;
          s6 = check_TemplateFile_template_id template_ids s5
      in (prev_len \<noteq> length (result s6), s6))"

text \<open>The number of entries whose marker is not \<^verbatim>\<open>False\<close>, over all seven lists.\<close>

definition count_valid :: "RegistryEntities \<Rightarrow> nat" where
  "count_valid s =
     length (valid_entries ActionKey.integrity_ok (action_keys s))
     + length (valid_entries AuditEntry.integrity_ok (audit_entries s))
     + length (valid_entries Organization.integrity_ok (organizations s))
     + length (valid_entries Package.integrity_ok (packages s))
     + length (valid_entries Template.integrity_ok (templates s))
     + length (valid_entries TemplateAsset.integrity_ok (template_assets s))
     + length (valid_entries TemplateFile.integrity_ok (template_files s))"

text \<open>The total record count, over all seven lists.\<close>

definition count_records :: "RegistryEntities \<Rightarrow> nat" where
  "count_records s =
     length (action_keys s) + length (audit_entries s) + length (organizations s)
     + length (packages s) + length (templates s) + length (template_assets s)
     + length (template_files s)"

section \<open>What one reference pass does\<close>

text \<open>
  Neither reference loop carries anything from one item to the next but the growing
  message list, so both have a closed form: the items that are valid and whose reference is
  missing are invalidated, and one message is appended for each, in list order.
\<close>

lemma check_reference_loop_eq:
  "check_reference_loop nm tg fn ok inval gid field ids xs res =
     (map (\<lambda>x. if ok x \<and> field x \<notin> ids then inval x else x) xs,
      res @ map (\<lambda>x. missing_message tg fn (field x) nm (gid x))
                (filter (\<lambda>x. ok x \<and> field x \<notin> ids) xs))"
  by (induction xs arbitrary: res) simp_all

lemma check_optional_reference_loop_eq:
  "check_optional_reference_loop nm tg fn ok inval gid field ids xs res =
     (map (\<lambda>x. if ok x \<and> (case field x of None \<Rightarrow> False | Some r \<Rightarrow> r \<notin> ids) then inval x else x) xs,
      res @ map (\<lambda>x. missing_message tg fn (the (field x)) nm (gid x))
                (filter (\<lambda>x. ok x \<and> (case field x of None \<Rightarrow> False | Some r \<Rightarrow> r \<notin> ids)) xs))"
  by (induction xs arbitrary: res) (simp_all split: option.splits bool.splits)

lemma invalidate_account:
  assumes "\<And>x. \<not> ok (inval x)"
  shows "length (filter (\<lambda>x. ok x \<and> bad x) xs)
           + length (filter ok (map (\<lambda>x. if ok x \<and> bad x then inval x else x) xs))
         = length (filter ok xs)"
  using assms by (induction xs) auto

lemma invalidate_none:
  "filter (\<lambda>x. ok x \<and> bad x) xs = [] \<Longrightarrow> map (\<lambda>x. if ok x \<and> bad x then inval x else x) xs = xs"
  by (induction xs) (auto split: if_splits)

lemma ActionKey_invalidate_ok [simp]: "\<not> ActionKey.integrity_ok (ActionKey_invalidate x)"
  by (simp add: ActionKey_invalidate_def)

lemma Package_invalidate_ok [simp]: "\<not> Package.integrity_ok (Package_invalidate x)"
  by (simp add: Package_invalidate_def)

lemma TemplateAsset_invalidate_ok [simp]: "\<not> TemplateAsset.integrity_ok (TemplateAsset_invalidate x)"
  by (simp add: TemplateAsset_invalidate_def)

lemma TemplateFile_invalidate_ok [simp]: "\<not> TemplateFile.integrity_ok (TemplateFile_invalidate x)"
  by (simp add: TemplateFile_invalidate_def)

definition marks :: "RegistryEntities \<Rightarrow> RegistryEntities \<Rightarrow> bool" where
  "marks s s' \<longleftrightarrow>
     length (result s') + count_valid s' = length (result s) + count_valid s
     \<and> prefix (result s) (result s')
     \<and> (length (result s') = length (result s) \<longrightarrow> s' = s)
     \<and> count_records s' = count_records s
     \<and> organizations s' = organizations s \<and> templates s' = templates s
     \<and> audit_entries s' = audit_entries s \<and> uuid4_calls s' = uuid4_calls s"

lemma marks_refl: "marks s s"
  by (simp add: marks_def)

lemma marks_trans: "marks s s' \<Longrightarrow> marks s' s'' \<Longrightarrow> marks s s''"
  unfolding marks_def
  by (metis (no_types, lifting) prefix_length_le prefix_order.order_trans le_antisym)

lemma marks_check_ActionKey_organization_id: "marks s (check_ActionKey_organization_id ids s)"
  using invalidate_account [of ActionKey.integrity_ok ActionKey_invalidate
      "\<lambda>x. ActionKey.organization_id x \<notin> ids" "action_keys s"]
    invalidate_none [of ActionKey.integrity_ok "\<lambda>x. ActionKey.organization_id x \<notin> ids" "action_keys s" ActionKey_invalidate]
  by (simp add: marks_def check_ActionKey_organization_id_def check_reference_def
      check_reference_loop_eq count_valid_def count_records_def valid_entries_def)

lemma marks_check_Package_reference: "marks s (check_Package_reference fn field ids s)"
  using invalidate_account [of Package.integrity_ok Package_invalidate
      "\<lambda>x. case field x of None \<Rightarrow> False | Some r \<Rightarrow> r \<notin> ids" "packages s"]
    invalidate_none [of Package.integrity_ok "\<lambda>x. case field x of None \<Rightarrow> False | Some r \<Rightarrow> r \<notin> ids" "packages s" Package_invalidate]
  by (simp add: marks_def check_Package_reference_def check_optional_reference_def
      check_optional_reference_loop_eq count_valid_def count_records_def valid_entries_def)

lemma marks_check_TemplateAsset_template_id: "marks s (check_TemplateAsset_template_id ids s)"
  using invalidate_account [of TemplateAsset.integrity_ok TemplateAsset_invalidate
      "\<lambda>x. TemplateAsset.template_id x \<notin> ids" "template_assets s"]
    invalidate_none [of TemplateAsset.integrity_ok "\<lambda>x. TemplateAsset.template_id x \<notin> ids" "template_assets s" TemplateAsset_invalidate]
  by (simp add: marks_def check_TemplateAsset_template_id_def check_reference_def
      check_reference_loop_eq count_valid_def count_records_def valid_entries_def)

lemma marks_check_TemplateFile_template_id: "marks s (check_TemplateFile_template_id ids s)"
  using invalidate_account [of TemplateFile.integrity_ok TemplateFile_invalidate
      "\<lambda>x. TemplateFile.template_id x \<notin> ids" "template_files s"]
    invalidate_none [of TemplateFile.integrity_ok "\<lambda>x. TemplateFile.template_id x \<notin> ids" "template_files s" TemplateFile_invalidate]
  by (simp add: marks_def check_TemplateFile_template_id_def check_reference_def
      check_reference_loop_eq count_valid_def count_records_def valid_entries_def)

lemma marks_check_references: "marks s (snd (check_references s))"
  unfolding check_references_def Let_def snd_conv
  apply (rule marks_trans [OF marks_check_ActionKey_organization_id])
  apply (rule marks_trans [OF marks_check_Package_reference])
  apply (rule marks_trans [OF marks_check_Package_reference])
  apply (rule marks_trans [OF marks_check_Package_reference])
  apply (rule marks_trans [OF marks_check_TemplateAsset_template_id])
  apply (rule marks_check_TemplateFile_template_id)
  done

lemma fst_check_references:
  "fst (check_references s) \<longleftrightarrow> length (result s) \<noteq> length (result (snd (check_references s)))"
  by (simp add: check_references_def Let_def)

lemma marks_account:
  "marks s s' \<Longrightarrow> length (result s') + count_valid s' = length (result s) + count_valid s"
  by (simp add: marks_def)

lemma marks_length: "marks s s' \<Longrightarrow> length (result s) \<le> length (result s')"
  by (simp add: marks_def prefix_length_le)

lemma marks_same: "marks s s' \<Longrightarrow> length (result s') = length (result s) \<Longrightarrow> s' = s"
  by (simp add: marks_def)

lemma check_references_decreases:
  "count_valid (snd (check_references s)) + (if fst (check_references s) then 1 else 0) \<le> count_valid s"
proof -
  define s' where "s' = snd (check_references s)"
  have m: "marks s s'"
    unfolding s'_def by (rule marks_check_references)
  have f: "fst (check_references s) \<longleftrightarrow> length (result s) \<noteq> length (result s')"
    unfolding s'_def by (rule fst_check_references)
  show ?thesis
    using marks_account [OF m] marks_length [OF m] unfolding f s'_def [symmetric]
    by (cases "length (result s) = length (result s')") simp_all
qed

lemma check_references_fixed:
  assumes "\<not> fst (check_references s)"
  shows "snd (check_references s) = s"
proof -
  define s' where "s' = snd (check_references s)"
  have m: "marks s s'"
    unfolding s'_def by (rule marks_check_references)
  have "length (result s') = length (result s)"
    using assms unfolding s'_def fst_check_references by simp
  with m have "s' = s" by (rule marks_same)
  then show ?thesis by (simp only: s'_def)
qed


section \<open>The fixed-point loop and \<^verbatim>\<open>check_integrity\<close>\<close>

text \<open>
  The \<^verbatim>\<open>while check_again\<close> loop of \<^verbatim>\<open>check_integrity\<close>, with the counter \<^verbatim>\<open>i\<close> it keeps
  for its log line: \<^verbatim>\<open>i\<close> is the number of calls of \<^verbatim>\<open>_check_references\<close> made so far. The
  source has no bound on the number of iterations; the loop ends because every pass that
  reports a new message invalidates an entry.
\<close>

function check_again_loop :: "bool \<Rightarrow> nat \<Rightarrow> RegistryEntities \<Rightarrow> nat \<times> RegistryEntities" where
  "check_again_loop check_again i s =
     (if check_again
      then (case check_references s of (again, s') \<Rightarrow> check_again_loop again (i + 1) s')
      else (i, s))"
  apply pat_completeness
  apply (simp only: prod.inject)
  done
termination
proof (relation "measure (\<lambda>(c, i, s). count_valid s + (if c then 1 else 0))")
  show "wf (measure (\<lambda>(c, i, s). count_valid s + (if c then 1 else 0)))" by simp
next
  fix check_again :: bool and i :: nat and s x y
  assume c: "check_again" and "(x, y) = check_references s"
  then have e: "check_references s = (x, y)" by simp
  have "count_valid y + (if x then 1 else 0) \<le> count_valid s"
    using check_references_decreases [of s] unfolding e by simp
  with c show "((x, i + 1, y), (check_again, i, s)) \<in> measure (\<lambda>(c, i, s). count_valid s + (if c then 1 else 0))"
    by simp
qed


declare check_again_loop.simps [simp del]

text \<open>
  The \<^verbatim>\<open>for lst, e in self.LIST_ENTITY.items()\<close> loop: one uniqueness pass per list, in the
  order of the dictionary.
\<close>

definition check_all_uniqueness :: "(nat \<Rightarrow> string) \<Rightarrow> RegistryEntities \<Rightarrow> RegistryEntities" where
  "check_all_uniqueness uuid4 s =
     (let s1 = check_uniqueness action_keys (\<lambda>l s. s\<lparr>action_keys := l\<rparr>)
                 ''ActionKey'' (stored ActionKey_get_id) ActionKey_invalidate s;
          s2 = check_uniqueness audit_entries (\<lambda>l s. s\<lparr>audit_entries := l\<rparr>)
                 ''AuditEntry'' (AuditEntry_get_id uuid4) AuditEntry_invalidate s1;
          s3 = check_uniqueness organizations (\<lambda>l s. s\<lparr>organizations := l\<rparr>)
                 ''Organization'' (stored Organization_get_id) Organization_invalidate s2;
          s4 = check_uniqueness packages (\<lambda>l s. s\<lparr>packages := l\<rparr>)
                 ''Package'' (stored Package_get_id) Package_invalidate s3;
          s5 = check_uniqueness templates (\<lambda>l s. s\<lparr>templates := l\<rparr>)
                 ''Template'' (stored Template_get_id) Template_invalidate s4;
          s6 = check_uniqueness template_assets (\<lambda>l s. s\<lparr>template_assets := l\<rparr>)
                 ''TemplateAsset'' (stored TemplateAsset_get_id) TemplateAsset_invalidate s5
      in check_uniqueness template_files (\<lambda>l s. s\<lparr>template_files := l\<rparr>)
           ''TemplateFile'' (stored TemplateFile_get_id) TemplateFile_invalidate s6)"

text \<open>
  \<^verbatim>\<open>check_integrity\<close>, up to its \<^verbatim>\<open>return\<close>: the final value of \<^verbatim>\<open>i\<close>, that is the number
  of reference passes made, and the final state.
\<close>

definition check_integrity_run :: "(nat \<Rightarrow> string) \<Rightarrow> RegistryEntities \<Rightarrow> nat \<times> RegistryEntities" where
  "check_integrity_run uuid4 s =
     (case check_references (check_all_uniqueness uuid4 (s\<lparr>result := []\<rparr>)) of
        (check_again, s') \<Rightarrow> check_again_loop check_again 1 s')"

text \<open>\<^verbatim>\<open>check_integrity\<close>: the list it returns, and the state it leaves.\<close>

definition check_integrity :: "(nat \<Rightarrow> string) \<Rightarrow> RegistryEntities \<Rightarrow> string list \<times> RegistryEntities" where
  "check_integrity uuid4 s =
     (case check_integrity_run uuid4 s of (i, s') \<Rightarrow> (result s', s'))"

definition reference_passes :: "(nat \<Rightarrow> string) \<Rightarrow> RegistryEntities \<Rightarrow> nat" where
  "reference_passes uuid4 s = fst (check_integrity_run uuid4 s)"

section \<open>Cascading invalidation\<close>

text \<open>
  The scenario: package \<open>B\<close> names as its previous package an id \<open>c\<close> that no package has,
  and package \<open>A\<close> is a fork of \<open>B\<close>. \<open>B\<close> stands first in the list, so that \<open>B\<close> is already
  marked when the pass reaches the fork reference of \<open>A\<close>.
\<close>

lemma check_again_loop_False: "check_again_loop False i s = (i, s)"
  by (simp add: check_again_loop.simps)

lemma check_again_loop_True:
  "check_references s = (again, s') \<Longrightarrow> check_again_loop True i s = check_again_loop again (Suc i) s'"
  by (subst check_again_loop.simps) simp

definition empty_entities :: RegistryEntities where
  "empty_entities = \<lparr>action_keys = [], audit_entries = [], organizations = [], packages = [],
     templates = [], template_assets = [], template_files = [], result = [], uuid4_calls = 0\<rparr>"

text \<open>A random source for the scenarios in which no audit entry asks for a token.\<close>

definition no_tokens :: "nat \<Rightarrow> string" where
  "no_tokens n = []"


definition package_B :: "string \<Rightarrow> string \<Rightarrow> Package" where
  "package_B b c = \<lparr>package_id = b, previous_package_id = Some c, fork_of_package_id = None,
     merge_checkpoint_package_id = None, integrity_ok = True\<rparr>"




lemmas pass_defs = check_references_def check_ActionKey_organization_id_def check_Package_reference_def
  check_TemplateAsset_template_id_def check_TemplateFile_template_id_def check_reference_def
  check_optional_reference_def make_ids_set_def valid_entries_def Package_get_id_def
  Package_invalidate_def Organization_get_id_def Template_get_id_def








section \<open>The uniqueness pass\<close>

text \<open>
  With a \<^verbatim>\<open>get_id\<close> that reads a field, the scan of a list \<open>xs @ ys\<close> is the scan of \<open>xs\<close>
  followed by the scan of \<open>ys\<close> with the ids of \<open>xs\<close> added to \<^verbatim>\<open>unique_set\<close>; a message for
  the id \<open>u\<close> is appended only at an item whose id is \<open>u\<close>.
\<close>

lemma duplicate_message_inj [simp]: "duplicate_message nm a = duplicate_message nm b \<longleftrightarrow> a = b"
  by (simp add: duplicate_message_def)

lemma check_uniqueness_loop_length:
  "check_uniqueness_loop nm gid inval xs seen res k = (ys, r, k') \<Longrightarrow> length ys = length xs"
  by (induction xs arbitrary: seen res k ys r k') (auto split: prod.splits if_splits)

lemma check_uniqueness_loop_append:
  "check_uniqueness_loop nm (stored f) inval (xs @ ys) seen res k =
     (case check_uniqueness_loop nm (stored f) inval xs seen res k of
        (xs', r1, k1) \<Rightarrow>
          (case check_uniqueness_loop nm (stored f) inval ys (seen \<union> f ` set xs) r1 k1 of
             (ys', r2, k2) \<Rightarrow> (xs' @ ys', r2, k2)))"
  by (induction xs arbitrary: seen res k) (simp_all add: stored_def split: prod.splits)

lemma check_uniqueness_loop_other:
  "check_uniqueness_loop nm (stored f) inval xs seen res k = (ys, r, k') \<Longrightarrow> u \<notin> f ` set xs \<Longrightarrow>
     count_list r (duplicate_message nm u) = count_list res (duplicate_message nm u)"
  by (induction xs arbitrary: seen res k ys r k') (auto simp: stored_def split: prod.splits if_splits)


lemma check_uniqueness_loop_stored:
  "check_uniqueness_loop nm (stored f) inval xs seen res k = (ys, r, k') \<Longrightarrow> k' = k"
  by (induction xs arbitrary: seen res k ys r k') (auto simp: stored_def split: prod.splits if_splits)

lemma check_uniqueness_loop_two:
  assumes "f x = u" and "f y = u" and "u \<notin> f ` set (pre @ mid @ post)"
  shows "\<exists>pre' mid' post' r.
           check_uniqueness_loop nm (stored f) inval (pre @ x # mid @ y # post) {} res k
             = (pre' @ x # mid' @ inval y # post', r, k)
           \<and> length pre' = length pre \<and> length mid' = length mid \<and> length post' = length post
           \<and> count_list r (duplicate_message nm u) = Suc (count_list res (duplicate_message nm u))"
proof -
  from assms(3) have npre: "u \<notin> f ` set pre" and nmid: "u \<notin> f ` set mid"
    and npost: "u \<notin> f ` set post" by auto
  obtain pre' r1 k1 where e1: "check_uniqueness_loop nm (stored f) inval pre {} res k = (pre', r1, k1)"
    using prod_cases3 by blast
  obtain mid' r2 k2 where e2:
    "check_uniqueness_loop nm (stored f) inval mid (insert u (f ` set pre)) r1 k1 = (mid', r2, k2)"
    using prod_cases3 by blast
  obtain post' r3 k3 where e3:
    "check_uniqueness_loop nm (stored f) inval post
       (insert u (f ` set pre \<union> f ` set mid)) (r2 @ [duplicate_message nm u]) k2 = (post', r3, k3)"
    using prod_cases3 by blast
  have "k1 = k" "k2 = k1" "k3 = k2"
    using e1 e2 e3 by (simp_all add: check_uniqueness_loop_stored)
  have c1: "count_list r1 (duplicate_message nm u) = count_list res (duplicate_message nm u)"
    using check_uniqueness_loop_other [OF e1 npre] .
  have c2: "count_list r2 (duplicate_message nm u) = count_list r1 (duplicate_message nm u)"
    using check_uniqueness_loop_other [OF e2 nmid] .
  have c3: "count_list r3 (duplicate_message nm u) = count_list (r2 @ [duplicate_message nm u]) (duplicate_message nm u)"
    using check_uniqueness_loop_other [OF e3 npost] .
  have "check_uniqueness_loop nm (stored f) inval (pre @ x # mid @ y # post) {} res k
          = (pre' @ x # mid' @ inval y # post', r3, k3)"
    using npre assms(1,2)
    by (simp add: check_uniqueness_loop_append e1 e2 e3 stored_def)
  moreover have "count_list r3 (duplicate_message nm u) = Suc (count_list res (duplicate_message nm u))"
    using c1 c2 c3 by simp
  moreover have "k3 = k"
    using \<open>k1 = k\<close> \<open>k2 = k1\<close> \<open>k3 = k2\<close> by simp
  ultimately have "check_uniqueness_loop nm (stored f) inval (pre @ x # mid @ y # post) {} res k
          = (pre' @ x # mid' @ inval y # post', r3, k)
       \<and> length pre' = length pre \<and> length mid' = length mid \<and> length post' = length post
       \<and> count_list r3 (duplicate_message nm u) = Suc (count_list res (duplicate_message nm u))"
    using check_uniqueness_loop_length [OF e1] check_uniqueness_loop_length [OF e2]
      check_uniqueness_loop_length [OF e3] by simp
  then show ?thesis by blast
qed


text \<open>The scenario of the spec: two action keys with the uuid \<open>u1\<close>, both valid.\<close>

definition action_key :: "string \<Rightarrow> string \<Rightarrow> ActionKey" where
  "action_key u h = \<lparr>ActionKey.uuid = u, organization_id = ''org'', type = ''RegistrationActionKey'',
     hash = h, created_at = 0, integrity_ok = True\<rparr>"

definition two_action_keys :: RegistryEntities where
  "two_action_keys = empty_entities\<lparr>action_keys := [action_key ''u1'' ''h1'', action_key ''u1'' ''h2'']\<rparr>"

text \<open>
  C6. The uniqueness pass scans the action keys in list order. When exactly two of them,
  \<open>x\<close> before \<open>y\<close>, have the uuid \<open>u\<close>, the pass leaves \<open>x\<close> as it was (valid if it was
  valid), replaces \<open>y\<close> by \<open>y\<close> with its marker set to \<^verbatim>\<open>False\<close>, keeps every record at its
  position, and appends the message \<^verbatim>\<open>Duplicate ID for ActionKey: u\<close> exactly once.
\<close>

theorem duplicate_action_key:
  assumes "action_keys s = pre @ x # mid @ y # post"
    and "ActionKey.uuid x = u" and "ActionKey.uuid y = u"
    and "u \<notin> ActionKey.uuid ` set (pre @ mid @ post)"
  shows "\<exists>pre' mid' post'.
           action_keys (check_uniqueness action_keys (\<lambda>l s. s\<lparr>action_keys := l\<rparr>) ''ActionKey''
                          (stored ActionKey_get_id) ActionKey_invalidate s)
             = pre' @ x # mid' @ y\<lparr>ActionKey.integrity_ok := False\<rparr> # post'
           \<and> length pre' = length pre \<and> length mid' = length mid \<and> length post' = length post
           \<and> count_list (result (check_uniqueness action_keys (\<lambda>l s. s\<lparr>action_keys := l\<rparr>)
                                     ''ActionKey'' (stored ActionKey_get_id) ActionKey_invalidate s))
                 (duplicate_message ''ActionKey'' u)
               = Suc (count_list (result s) (duplicate_message ''ActionKey'' u))"
proof -
  have g: "ActionKey_get_id = ActionKey.uuid"
    by (rule ext) (simp add: ActionKey_get_id_def)
  from check_uniqueness_loop_two [of ActionKey.uuid x u y pre mid post "''ActionKey''"
      ActionKey_invalidate "result s" "uuid4_calls s", OF assms(2,3,4)]
  obtain pre' mid' post' r where
    "check_uniqueness_loop ''ActionKey'' (stored ActionKey.uuid) ActionKey_invalidate
       (pre @ x # mid @ y # post) {} (result s) (uuid4_calls s)
       = (pre' @ x # mid' @ ActionKey_invalidate y # post', r, uuid4_calls s)"
    "length pre' = length pre" "length mid' = length mid" "length post' = length post"
    "count_list r (duplicate_message ''ActionKey'' u)
       = Suc (count_list (result s) (duplicate_message ''ActionKey'' u))"
    by blast
  then have "action_keys (check_uniqueness action_keys (\<lambda>l s. s\<lparr>action_keys := l\<rparr>) ''ActionKey''
                          (stored ActionKey_get_id) ActionKey_invalidate s)
             = pre' @ x # mid' @ y\<lparr>ActionKey.integrity_ok := False\<rparr> # post'
           \<and> length pre' = length pre \<and> length mid' = length mid \<and> length post' = length post
           \<and> count_list (result (check_uniqueness action_keys (\<lambda>l s. s\<lparr>action_keys := l\<rparr>)
                                     ''ActionKey'' (stored ActionKey_get_id) ActionKey_invalidate s))
                 (duplicate_message ''ActionKey'' u)
               = Suc (count_list (result s) (duplicate_message ''ActionKey'' u))"
    by (simp add: check_uniqueness_def g assms(1) ActionKey_invalidate_def)
  then show ?thesis by blast
qed

theorem duplicate_action_key_witness:
  "action_keys (check_uniqueness action_keys (\<lambda>l s. s\<lparr>action_keys := l\<rparr>) ''ActionKey''
                  (stored ActionKey_get_id) ActionKey_invalidate two_action_keys)
     = [action_key ''u1'' ''h1'', (action_key ''u1'' ''h2'')\<lparr>ActionKey.integrity_ok := False\<rparr>]
   \<and> count_list (result (check_uniqueness action_keys (\<lambda>l s. s\<lparr>action_keys := l\<rparr>) ''ActionKey''
                  (stored ActionKey_get_id) ActionKey_invalidate two_action_keys))
        ''Duplicate ID for ActionKey: u1'' = 1"
  using duplicate_action_key [of two_action_keys "[]" "action_key ''u1'' ''h1''" "[]"
      "action_key ''u1'' ''h2''" "[]" "''u1''"]
  by (simp add: two_action_keys_def empty_entities_def action_key_def duplicate_message_def)


section \<open>Audit entries and fresh tokens\<close>

text \<open>
  \<open>drawn_ids uuid4 k0 k\<close>: the identities an audit entry can have been given from the tokens
  with the numbers \<open>k0\<close> to \<open>k - 1\<close>. A uuid4 token is 36 characters long, so an id built on a
  token that differs from all of those is none of them.
\<close>

definition drawn_ids :: "(nat \<Rightarrow> string) \<Rightarrow> nat \<Rightarrow> nat \<Rightarrow> string set" where
  "drawn_ids uuid4 k0 k = {org @ ''_'' @ uuid4 m | org m. k0 \<le> m \<and> m < k}"

lemma fresh_id_not_drawn:
  assumes "inj_on uuid4 {k0..<Suc k}" and "\<forall>m\<in>{k0..<Suc k}. length (uuid4 m) = 36" and "k0 \<le> k"
  shows "org @ ''_'' @ uuid4 k \<notin> drawn_ids uuid4 k0 k"
proof
  assume "org @ ''_'' @ uuid4 k \<in> drawn_ids uuid4 k0 k"
  then obtain org' m where e: "org @ ''_'' @ uuid4 k = org' @ ''_'' @ uuid4 m" and m: "k0 \<le> m" "m < k"
    by (auto simp: drawn_ids_def)
  from assms(2,3) m have "length (''_'' @ uuid4 k) = length (''_'' @ uuid4 m)" by simp
  with e have "''_'' @ uuid4 k = ''_'' @ uuid4 m"
    using append_eq_append_conv [of org org' "''_'' @ uuid4 k" "''_'' @ uuid4 m"] by blast
  then have "uuid4 k = uuid4 m" by simp
  with assms(1,3) m have "k = m" by (auto dest!: inj_onD [where x = k and y = m])
  with m show False by simp
qed

lemma drawn_ids_Suc:
  "k0 \<le> k \<Longrightarrow> insert (org @ ''_'' @ uuid4 k) (drawn_ids uuid4 k0 k) \<subseteq> drawn_ids uuid4 k0 (Suc k)"
  by (auto simp: drawn_ids_def less_Suc_eq)

lemma AuditEntry_get_id_apply:
  "AuditEntry_get_id uuid4 x k = (AuditEntry.organization_id x @ ''_'' @ uuid4 k, Suc k)"
  by (simp add: AuditEntry_get_id_def)

lemma check_uniqueness_loop_fresh:
  assumes "\<And>x k. gid x k = (org x @ ''_'' @ uuid4 k, Suc k)"
    and "inj_on uuid4 {k0..<k + length xs}"
    and "\<forall>m\<in>{k0..<k + length xs}. length (uuid4 m) = 36"
    and "k0 \<le> k" and "seen \<subseteq> drawn_ids uuid4 k0 k"
  shows "check_uniqueness_loop nm gid inval xs seen res k = (xs, res, k + length xs)"
  using assms(2-)
proof (induction xs arbitrary: seen k)
  case Nil
  then show ?case by simp
next
  case (Cons x xs)
  let ?id = "org x @ ''_'' @ uuid4 k"
  have inj: "inj_on uuid4 {k0..<Suc k}"
    using Cons.prems(1) by (rule inj_on_subset) auto
  have len: "\<forall>m\<in>{k0..<Suc k}. length (uuid4 m) = 36"
    using Cons.prems(2) by auto
  have nd: "?id \<notin> seen"
    using fresh_id_not_drawn [OF inj len Cons.prems(3)] Cons.prems(4) by blast
  have sub: "insert ?id seen \<subseteq> drawn_ids uuid4 k0 (Suc k)"
    using drawn_ids_Suc [OF Cons.prems(3), of "org x" uuid4] Cons.prems(4) by blast
  have "check_uniqueness_loop nm gid inval xs (insert ?id seen) res (Suc k)
          = (xs, res, Suc k + length xs)"
    using Cons.prems(1,2,3) by (intro Cons.IH [OF _ _ _ sub]) simp_all
  moreover have "gid x k = (?id, Suc k)" by (rule assms(1))
  ultimately show ?case using nd by simp
qed

lemma check_uniqueness_audit_entries_fresh:
  assumes "inj_on uuid4 {uuid4_calls s..<uuid4_calls s + length (audit_entries s)}"
    and "\<forall>m\<in>{uuid4_calls s..<uuid4_calls s + length (audit_entries s)}. length (uuid4 m) = 36"
  shows "check_uniqueness audit_entries (\<lambda>l s. s\<lparr>audit_entries := l\<rparr>) ''AuditEntry''
           (AuditEntry_get_id uuid4) AuditEntry_invalidate s
         = s\<lparr>uuid4_calls := uuid4_calls s + length (audit_entries s)\<rparr>"
  unfolding check_uniqueness_def
  using check_uniqueness_loop_fresh [of "AuditEntry_get_id uuid4" AuditEntry.organization_id uuid4
      "uuid4_calls s" "uuid4_calls s" "audit_entries s" "{}" "''AuditEntry''" AuditEntry_invalidate "result s",
      OF AuditEntry_get_id_apply assms]
  by simp


section \<open>All uniqueness passes\<close>

lemma check_uniqueness_loop_lists:
  "fst (check_uniqueness_loop nm gid inval xs seen res k)
     = fst (check_uniqueness_loop nm gid inval xs seen res' k)"
  by (induction xs arbitrary: seen res res' k) (simp_all add: case_prod_unfold)

lemma check_all_uniqueness_cases:
  obtains (steps) aks r1 k1 aes r2 k2 orgs r3 k3 pkgs r4 k4 tmps r5 k5 tas r6 k6 tfs r7 k7 where
    "check_uniqueness_loop ''ActionKey'' (stored ActionKey_get_id) ActionKey_invalidate
       (action_keys s) {} (result s) (uuid4_calls s) = (aks, r1, k1)"
    "check_uniqueness_loop ''AuditEntry'' (AuditEntry_get_id uuid4) AuditEntry_invalidate
       (audit_entries s) {} r1 k1 = (aes, r2, k2)"
    "check_uniqueness_loop ''Organization'' (stored Organization_get_id) Organization_invalidate
       (organizations s) {} r2 k2 = (orgs, r3, k3)"
    "check_uniqueness_loop ''Package'' (stored Package_get_id) Package_invalidate
       (packages s) {} r3 k3 = (pkgs, r4, k4)"
    "check_uniqueness_loop ''Template'' (stored Template_get_id) Template_invalidate
       (templates s) {} r4 k4 = (tmps, r5, k5)"
    "check_uniqueness_loop ''TemplateAsset'' (stored TemplateAsset_get_id) TemplateAsset_invalidate
       (template_assets s) {} r5 k5 = (tas, r6, k6)"
    "check_uniqueness_loop ''TemplateFile'' (stored TemplateFile_get_id) TemplateFile_invalidate
       (template_files s) {} r6 k6 = (tfs, r7, k7)"
    "check_all_uniqueness uuid4 s =
       \<lparr>action_keys = aks, audit_entries = aes, organizations = orgs, packages = pkgs,
        templates = tmps, template_assets = tas, template_files = tfs, result = r7,
        uuid4_calls = k7\<rparr>"
proof -
  obtain aks r1 k1 where e1: "check_uniqueness_loop ''ActionKey'' (stored ActionKey_get_id) ActionKey_invalidate
       (action_keys s) {} (result s) (uuid4_calls s) = (aks, r1, k1)"
    using prod_cases3 by blast
  obtain aes r2 k2 where e2: "check_uniqueness_loop ''AuditEntry'' (AuditEntry_get_id uuid4) AuditEntry_invalidate
       (audit_entries s) {} r1 k1 = (aes, r2, k2)"
    using prod_cases3 by blast
  obtain orgs r3 k3 where e3: "check_uniqueness_loop ''Organization'' (stored Organization_get_id) Organization_invalidate
       (organizations s) {} r2 k2 = (orgs, r3, k3)"
    using prod_cases3 by blast
  obtain pkgs r4 k4 where e4: "check_uniqueness_loop ''Package'' (stored Package_get_id) Package_invalidate
       (packages s) {} r3 k3 = (pkgs, r4, k4)"
    using prod_cases3 by blast
  obtain tmps r5 k5 where e5: "check_uniqueness_loop ''Template'' (stored Template_get_id) Template_invalidate
       (templates s) {} r4 k4 = (tmps, r5, k5)"
    using prod_cases3 by blast
  obtain tas r6 k6 where e6: "check_uniqueness_loop ''TemplateAsset'' (stored TemplateAsset_get_id) TemplateAsset_invalidate
       (template_assets s) {} r5 k5 = (tas, r6, k6)"
    using prod_cases3 by blast
  obtain tfs r7 k7 where e7: "check_uniqueness_loop ''TemplateFile'' (stored TemplateFile_get_id) TemplateFile_invalidate
       (template_files s) {} r6 k6 = (tfs, r7, k7)"
    using prod_cases3 by blast
  have "check_all_uniqueness uuid4 s =
       \<lparr>action_keys = aks, audit_entries = aes, organizations = orgs, packages = pkgs,
        templates = tmps, template_assets = tas, template_files = tfs, result = r7,
        uuid4_calls = k7\<rparr>"
    by (simp add: check_all_uniqueness_def check_uniqueness_def e1 e2 e3 e4 e5 e6 e7)
  with e1 e2 e3 e4 e5 e6 e7 show thesis by (rule steps)
qed

lemma check_uniqueness_loop_account:
  assumes "\<And>x. \<not> ok (inval x)"
    and "check_uniqueness_loop nm gid inval xs seen res k = (ys, r, k')"
  shows "length r + length (filter ok ys) \<le> length res + length xs"
  using assms(2)
proof (induction xs arbitrary: seen res k ys r k')
  case Nil
  then show ?case by simp
next
  case (Cons x xs)
  obtain item_id k1 where g: "gid x k = (item_id, k1)" by force
  show ?case
  proof (cases "item_id \<in> seen")
    case True
    obtain ys' where "check_uniqueness_loop nm gid inval xs (insert item_id seen)
        (res @ [duplicate_message nm item_id]) k1 = (ys', r, k')" and "ys = inval x # ys'"
      using Cons.prems True g by (auto split: prod.splits)
    with Cons.IH [OF this(1)] assms(1) show ?thesis by simp
  next
    case False
    obtain ys' where "check_uniqueness_loop nm gid inval xs (insert item_id seen) res k1 = (ys', r, k')"
      and "ys = x # ys'"
      using Cons.prems False g by (auto split: prod.splits)
    with Cons.IH [OF this(1)] show ?thesis by simp
  qed
qed

lemma ActionKey_not_ok: "\<not> ActionKey.integrity_ok (ActionKey_invalidate x)"
  by (simp add: ActionKey_invalidate_def)

lemma AuditEntry_not_ok: "\<not> AuditEntry.integrity_ok (AuditEntry_invalidate x)"
  by (simp add: AuditEntry_invalidate_def)

lemma Organization_not_ok: "\<not> Organization.integrity_ok (Organization_invalidate x)"
  by (simp add: Organization_invalidate_def)

lemma Package_not_ok: "\<not> Package.integrity_ok (Package_invalidate x)"
  by (simp add: Package_invalidate_def)

lemma Template_not_ok: "\<not> Template.integrity_ok (Template_invalidate x)"
  by (simp add: Template_invalidate_def)

lemma TemplateAsset_not_ok: "\<not> TemplateAsset.integrity_ok (TemplateAsset_invalidate x)"
  by (simp add: TemplateAsset_invalidate_def)

lemma TemplateFile_not_ok: "\<not> TemplateFile.integrity_ok (TemplateFile_invalidate x)"
  by (simp add: TemplateFile_invalidate_def)

lemma check_all_uniqueness_account:
  "length (result (check_all_uniqueness uuid4 s)) + count_valid (check_all_uniqueness uuid4 s)
     \<le> length (result s) + count_records s"
proof (cases rule: check_all_uniqueness_cases [of s uuid4])
  case (steps aks r1 k1 aes r2 k2 orgs r3 k3 pkgs r4 k4 tmps r5 k5 tas r6 k6 tfs r7 k7)
  note a =
    check_uniqueness_loop_account [where ok = ActionKey.integrity_ok, OF ActionKey_not_ok steps(1)]
    check_uniqueness_loop_account [where ok = AuditEntry.integrity_ok, OF AuditEntry_not_ok steps(2)]
    check_uniqueness_loop_account [where ok = Organization.integrity_ok, OF Organization_not_ok steps(3)]
    check_uniqueness_loop_account [where ok = Package.integrity_ok, OF Package_not_ok steps(4)]
    check_uniqueness_loop_account [where ok = Template.integrity_ok, OF Template_not_ok steps(5)]
    check_uniqueness_loop_account [where ok = TemplateAsset.integrity_ok, OF TemplateAsset_not_ok steps(6)]
    check_uniqueness_loop_account [where ok = TemplateFile.integrity_ok, OF TemplateFile_not_ok steps(7)]
  from a show ?thesis
    by (simp add: steps(8) count_valid_def count_records_def valid_entries_def)
qed

lemma check_all_uniqueness_count_records:
  "count_records (check_all_uniqueness uuid4 s) = count_records s"
proof (cases rule: check_all_uniqueness_cases [of s uuid4])
  case (steps aks r1 k1 aes r2 k2 orgs r3 k3 pkgs r4 k4 tmps r5 k5 tas r6 k6 tfs r7 k7)
  note l = steps(1-7) [THEN check_uniqueness_loop_length]
  show ?thesis
    by (simp add: steps(8) count_records_def l)
qed


section \<open>The loop as a whole\<close>

lemma check_again_loop_marks: "marks s (snd (check_again_loop c i s))"
proof (induction c i s rule: check_again_loop.induct)
  case (1 check_again i s)
  show ?case
  proof (cases check_again)
    case False
    then show ?thesis by (simp add: check_again_loop_False marks_refl)
  next
    case True
    obtain again s' where e: "check_references s = (again, s')" by force
    have "marks s s'"
      using marks_check_references [of s] by (simp add: e)
    moreover have "marks s' (snd (check_again_loop again (i + 1) s'))"
      using "1.IH" [OF True e [symmetric]] .
    ultimately show ?thesis
      using True by (simp add: check_again_loop_True [OF e] marks_trans)
  qed
qed

lemma check_again_loop_passes:
  "fst (check_again_loop c i s) \<le> i + (if c then Suc (count_valid s) else 0)"
proof (induction c i s rule: check_again_loop.induct)
  case (1 check_again i s)
  show ?case
  proof (cases check_again)
    case False
    then show ?thesis by (simp add: check_again_loop_False)
  next
    case True
    obtain again s' where e: "check_references s = (again, s')" by force
    have d: "count_valid s' + (if again then 1 else 0) \<le> count_valid s"
      using check_references_decreases [of s] by (simp add: e)
    have "fst (check_again_loop again (i + 1) s') \<le> i + 1 + (if again then Suc (count_valid s') else 0)"
      using "1.IH" [OF True e [symmetric]] .
    with d have "fst (check_again_loop again (i + 1) s') \<le> i + Suc (count_valid s)"
      by (cases again) simp_all
    then show ?thesis
      using True by (simp add: check_again_loop_True [OF e])
  qed
qed

lemma check_again_loop_at_least: "i \<le> fst (check_again_loop c i s)"
proof (induction c i s rule: check_again_loop.induct)
  case (1 check_again i s)
  show ?case
  proof (cases check_again)
    case False
    then show ?thesis by (simp add: check_again_loop_False)
  next
    case True
    obtain again s' where e: "check_references s = (again, s')" by force
    have "i + 1 \<le> fst (check_again_loop again (i + 1) s')"
      using "1.IH" [OF True e [symmetric]] .
    then show ?thesis
      using True by (simp add: check_again_loop_True [OF e])
  qed
qed

lemma check_again_loop_fixed:
  "(\<not> c \<Longrightarrow> \<not> fst (check_references s)) \<Longrightarrow>
     \<not> fst (check_references (snd (check_again_loop c i s)))"
proof (induction c i s rule: check_again_loop.induct)
  case (1 check_again i s)
  show ?case
  proof (cases check_again)
    case False
    with "1.prems" show ?thesis by (simp add: check_again_loop_False)
  next
    case True
    obtain again s' where e: "check_references s = (again, s')" by force
    have "\<not> again \<Longrightarrow> \<not> fst (check_references s')"
    proof -
      assume "\<not> again"
      then have "\<not> fst (check_references s)" by (simp add: e)
      then have "snd (check_references s) = s" by (rule check_references_fixed)
      then have "s' = s" by (simp add: e)
      with \<open>\<not> fst (check_references s)\<close> show ?thesis by simp
    qed
    then have "\<not> fst (check_references (snd (check_again_loop again (i + 1) s')))"
      by (rule "1.IH" [OF True e [symmetric]])
    then show ?thesis
      using True by (simp add: check_again_loop_True [OF e])
  qed
qed

lemma count_valid_le_count_records: "count_valid s \<le> count_records s"
  by (simp add: count_valid_def count_records_def valid_entries_def add_mono)

lemma check_integrity_run_eq:
  "check_integrity_run uuid4 s =
     check_again_loop (fst (check_references (check_all_uniqueness uuid4 (s\<lparr>result := []\<rparr>)))) 1
       (snd (check_references (check_all_uniqueness uuid4 (s\<lparr>result := []\<rparr>))))"
  by (simp add: check_integrity_run_def case_prod_unfold)

lemma snd_check_integrity: "snd (check_integrity uuid4 s) = snd (check_integrity_run uuid4 s)"
  by (simp add: check_integrity_def case_prod_unfold)

lemma fst_check_integrity: "fst (check_integrity uuid4 s) = result (snd (check_integrity_run uuid4 s))"
  by (simp add: check_integrity_def case_prod_unfold)

lemma marks_check_integrity_run:
  "marks (check_all_uniqueness uuid4 (s\<lparr>result := []\<rparr>)) (snd (check_integrity_run uuid4 s))"
  unfolding check_integrity_run_eq
  by (rule marks_trans [OF marks_check_references check_again_loop_marks])

text \<open>
  C9. Every message of a \<^verbatim>\<open>check_integrity\<close> call stands for a record of its own that is
  invalid when the call returns: the number of messages plus the number of valid records is
  at most the number of records, so the list returned has at most as many entries as there
  are records (and no list changes its length). A record whose marker is \<^verbatim>\<open>False\<close> is passed
  over by both reference checks: on records that are all invalid they change nothing and
  append nothing.
\<close>

theorem violations_bounded_by_records:
  "length (fst (check_integrity uuid4 s)) + count_valid (snd (check_integrity uuid4 s)) \<le> count_records s
   \<and> length (fst (check_integrity uuid4 s)) \<le> count_records s
   \<and> count_records (snd (check_integrity uuid4 s)) = count_records s
   \<and> check_reference_loop nm target field_name ok inval gid field ids_set
        (filter (\<lambda>x. \<not> ok x) xs) res = (filter (\<lambda>x. \<not> ok x) xs, res)
   \<and> check_optional_reference_loop nm target field_name ok inval gid field' ids_set
        (filter (\<lambda>x. \<not> ok x) xs) res = (filter (\<lambda>x. \<not> ok x) xs, res)"
proof -
  let ?u = "check_all_uniqueness uuid4 (s\<lparr>result := []\<rparr>)"
  let ?f = "snd (check_integrity_run uuid4 s)"
  have m: "marks ?u ?f" by (rule marks_check_integrity_run)
  have "length (result ?u) + count_valid ?u \<le> count_records s"
    using check_all_uniqueness_account [of uuid4 "s\<lparr>result := []\<rparr>"]
    by (simp add: count_records_def)
  with marks_account [OF m] have a: "length (result ?f) + count_valid ?f \<le> count_records s"
    by simp
  have "count_records ?f = count_records ?u"
    using m by (simp add: marks_def)
  then have c: "count_records ?f = count_records s"
    by (simp add: check_all_uniqueness_count_records) (simp add: count_records_def)
  have skip1: "map (\<lambda>x. if ok x \<and> field x \<notin> ids_set then inval x else x) (filter (\<lambda>x. \<not> ok x) xs)
      = filter (\<lambda>x. \<not> ok x) xs"
    by (induction xs) simp_all
  have skip2: "map (\<lambda>x. if ok x \<and> (case field' x of None \<Rightarrow> False | Some r \<Rightarrow> r \<notin> ids_set)
        then inval x else x) (filter (\<lambda>x. \<not> ok x) xs) = filter (\<lambda>x. \<not> ok x) xs"
    by (induction xs) simp_all
  show ?thesis
    using a c
    by (simp add: fst_check_integrity snd_check_integrity check_reference_loop_eq
        check_optional_reference_loop_eq skip1 skip2)
qed

text \<open>A single package whose previous package does not exist.\<close>

definition dangling_package :: RegistryEntities where
  "dangling_package = empty_entities\<lparr>packages := [package_B ''B'' ''C'']\<rparr>"

text \<open>
  C4, as stated, fails: with one record, the loop makes two reference passes (the one that
  invalidates the package, and the one that finds nothing new).
\<close>

theorem passes_exceed_record_count:
  "reference_passes no_tokens dangling_package = 2 \<and> count_records dangling_package = 1
   \<and> \<not> reference_passes no_tokens dangling_package \<le> count_records dangling_package"
proof -
  have u: "check_all_uniqueness no_tokens (dangling_package\<lparr>result := []\<rparr>) = dangling_package"
    by (simp add: check_all_uniqueness_def check_uniqueness_def dangling_package_def empty_entities_def
        package_B_def stored_def Package_get_id_def)
  have p1: "check_references dangling_package =
      (True, dangling_package\<lparr>packages := [(package_B ''B'' ''C'')\<lparr>Package.integrity_ok := False\<rparr>],
         result := [missing_message ''Package'' ''previous_package_id'' ''C'' ''Package'' ''B'']\<rparr>)"
    by (simp add: pass_defs dangling_package_def empty_entities_def package_B_def)
  have p2: "check_references (dangling_package\<lparr>packages := [(package_B ''B'' ''C'')\<lparr>Package.integrity_ok := False\<rparr>],
         result := [missing_message ''Package'' ''previous_package_id'' ''C'' ''Package'' ''B'']\<rparr>) =
      (False, dangling_package\<lparr>packages := [(package_B ''B'' ''C'')\<lparr>Package.integrity_ok := False\<rparr>],
         result := [missing_message ''Package'' ''previous_package_id'' ''C'' ''Package'' ''B'']\<rparr>)"
    by (simp add: pass_defs dangling_package_def empty_entities_def package_B_def)
  have "check_integrity_run no_tokens dangling_package =
      (2, dangling_package\<lparr>packages := [(package_B ''B'' ''C'')\<lparr>Package.integrity_ok := False\<rparr>],
         result := [missing_message ''Package'' ''previous_package_id'' ''C'' ''Package'' ''B'']\<rparr>)"
    unfolding check_integrity_run_def u p1 prod.case
    by (simp add: check_again_loop_True [OF p2] check_again_loop_False)
  then show ?thesis
    by (simp add: reference_passes_def count_records_def dangling_package_def empty_entities_def)
qed

text \<open>
  C4, amended. The loop of \<^verbatim>\<open>check_integrity\<close> has no bound of its own: it ends when a pass
  reports nothing new, and only then. It always ends (\<open>check_again_loop\<close> is total), after
  at least one and at most (total record count + 1) reference passes, in a state on which
  one more pass reports nothing and changes nothing.
\<close>

theorem reference_passes_bounded:
  "1 \<le> reference_passes uuid4 s
   \<and> reference_passes uuid4 s \<le> Suc (count_records s)
   \<and> check_references (snd (check_integrity uuid4 s)) = (False, snd (check_integrity uuid4 s))"
proof -
  let ?u = "check_all_uniqueness uuid4 (s\<lparr>result := []\<rparr>)"
  let ?c = "fst (check_references ?u)" and ?s8 = "snd (check_references ?u)"
  have "reference_passes uuid4 s \<le> 1 + (if ?c then Suc (count_valid ?s8) else 0)"
    unfolding reference_passes_def check_integrity_run_eq by (rule check_again_loop_passes)
  moreover have "count_valid ?s8 + (if ?c then 1 else 0) \<le> count_valid ?u"
    by (rule check_references_decreases)
  moreover have "count_valid ?u \<le> count_records s"
    using count_valid_le_count_records [of ?u]
    by (simp add: check_all_uniqueness_count_records) (simp add: count_records_def)
  ultimately have b: "reference_passes uuid4 s \<le> Suc (count_records s)"
    by (cases ?c) simp_all
  have l: "1 \<le> reference_passes uuid4 s"
    unfolding reference_passes_def check_integrity_run_eq by (rule check_again_loop_at_least)
  have "\<not> ?c \<Longrightarrow> \<not> fst (check_references ?s8)"
    by (simp add: check_references_fixed)
  then have "\<not> fst (check_references (snd (check_integrity_run uuid4 s)))"
    unfolding check_integrity_run_eq by (rule check_again_loop_fixed)
  then have "check_references (snd (check_integrity uuid4 s)) = (False, snd (check_integrity uuid4 s))"
    using check_references_fixed [of "snd (check_integrity_run uuid4 s)"]
    by (simp add: snd_check_integrity prod_eq_iff)
  with b l show ?thesis by simp
qed


lemma check_integrity_audit_entries:
  "audit_entries (snd (check_integrity uuid4 s))
     = audit_entries (check_uniqueness audit_entries (\<lambda>l s. s\<lparr>audit_entries := l\<rparr>) ''AuditEntry''
         (AuditEntry_get_id uuid4) AuditEntry_invalidate s)"
proof (cases rule: check_all_uniqueness_cases [of "s\<lparr>result := []\<rparr>" uuid4])
  case (steps aks r1 k1 aes r2 k2 orgs r3 k3 pkgs r4 k4 tmps r5 k5 tas r6 k6 tfs r7 k7)
  have k: "k1 = uuid4_calls s"
    using check_uniqueness_loop_stored [OF steps(1)] by simp
  have "audit_entries (snd (check_integrity uuid4 s))
      = audit_entries (check_all_uniqueness uuid4 (s\<lparr>result := []\<rparr>))"
    using marks_check_integrity_run [of uuid4 s] by (simp add: marks_def snd_check_integrity)
  also have "\<dots> = aes" by (simp add: steps(8))
  finally show ?thesis
    using steps(2) check_uniqueness_loop_lists [of "''AuditEntry''" "AuditEntry_get_id uuid4"
        AuditEntry_invalidate "audit_entries s" "{}" r1 k1 "result s"]
    by (simp add: check_uniqueness_def k case_prod_unfold)
qed


text \<open>
  C10. Two calls of \<^verbatim>\<open>AuditEntry.get_id\<close> on the same record, one after the other, return
  the same identity only if \<^verbatim>\<open>uuid4\<close> returned the same token twice. When the tokens handed
  out during the uniqueness pass over the audit entries are pairwise different (each 36
  characters long, as a uuid4 is), that pass flips no marker and appends no message: it only
  advances the random source, by one token per audit entry, whatever organization ids the
  entries share. No later step of \<^verbatim>\<open>check_integrity\<close> touches the audit entries.
\<close>

theorem audit_entries_never_duplicate:
  assumes "inj_on uuid4 {uuid4_calls s..<uuid4_calls s + length (audit_entries s)}"
    and "\<forall>m\<in>{uuid4_calls s..<uuid4_calls s + length (audit_entries s)}. length (uuid4 m) = 36"
  shows "(fst (AuditEntry_get_id uuid4 x k) = fst (AuditEntry_get_id uuid4 x (snd (AuditEntry_get_id uuid4 x k)))
            \<longleftrightarrow> uuid4 k = uuid4 (Suc k))
     \<and> check_uniqueness audit_entries (\<lambda>l s. s\<lparr>audit_entries := l\<rparr>) ''AuditEntry''
           (AuditEntry_get_id uuid4) AuditEntry_invalidate s
         = s\<lparr>uuid4_calls := uuid4_calls s + length (audit_entries s)\<rparr>
     \<and> audit_entries (snd (check_integrity uuid4 s)) = audit_entries s"
proof -
  note u = check_uniqueness_audit_entries_fresh [OF assms]
  have "audit_entries (snd (check_integrity uuid4 s)) = audit_entries s"
    unfolding check_integrity_audit_entries u by simp
  with u show ?thesis by (simp add: AuditEntry_get_id_apply)
qed

text \<open>Two audit entries of one organization, and a random source with two different tokens.\<close>

definition two_tokens :: "nat \<Rightarrow> string" where
  "two_tokens n = (if n = 0 then ''6fa459ea-ee8a-4ca4-894e-db77e160355e''
                   else ''16fd2706-8baf-433b-82eb-8c7fada847da'')"

definition audit_entry :: "string \<Rightarrow> AuditEntry" where
  "audit_entry org = \<lparr>AuditEntry.type = ''ListPackagesAuditEntry'', organization_id = org,
     instance_statistics = ''{}'', package_id = [], created_at = 0, integrity_ok = True\<rparr>"

definition two_audit_entries :: RegistryEntities where
  "two_audit_entries = empty_entities\<lparr>audit_entries := [audit_entry ''org'', audit_entry ''org'']\<rparr>"

theorem audit_entries_never_duplicate_witness:
  "fst (AuditEntry_get_id two_tokens (audit_entry ''org'') 0)
     \<noteq> fst (AuditEntry_get_id two_tokens (audit_entry ''org'') (snd (AuditEntry_get_id two_tokens (audit_entry ''org'') 0)))
   \<and> check_uniqueness audit_entries (\<lambda>l s. s\<lparr>audit_entries := l\<rparr>) ''AuditEntry''
        (AuditEntry_get_id two_tokens) AuditEntry_invalidate two_audit_entries
      = two_audit_entries\<lparr>uuid4_calls := 2\<rparr>
   \<and> audit_entries (snd (check_integrity two_tokens two_audit_entries))
      = [audit_entry ''org'', audit_entry ''org'']"
proof -
  have r: "{uuid4_calls two_audit_entries..<uuid4_calls two_audit_entries + length (audit_entries two_audit_entries)}
      = {0, 1}"
    by (auto simp: two_audit_entries_def empty_entities_def)
  have i: "inj_on two_tokens {uuid4_calls two_audit_entries..<
      uuid4_calls two_audit_entries + length (audit_entries two_audit_entries)}"
    unfolding r by (simp add: two_tokens_def)
  have l: "\<forall>m\<in>{uuid4_calls two_audit_entries..<
      uuid4_calls two_audit_entries + length (audit_entries two_audit_entries)}. length (two_tokens m) = 36"
    unfolding r by (simp add: two_tokens_def)
  have t: "two_tokens 0 \<noteq> two_tokens (Suc 0)"
    by (simp add: two_tokens_def)
  show ?thesis
    using audit_entries_never_duplicate [OF i l, of "audit_entry ''org''" 0] t
    by (simp add: two_audit_entries_def empty_entities_def numeral_2_eq_2)
qed


section \<open>The migration orchestrator\<close>

text \<open>
  \<^verbatim>\<open>RegistryMigrator\<close> talks to three clients (\<^verbatim>\<open>PostgresDB\<close>, \<^verbatim>\<open>MongoDB\<close>, \<^verbatim>\<open>S3Storage\<close>)
  whose code is not part of the sources at hand. The model records every call the migrator
  makes on them, in order, with its arguments; what a call answers, and whether it raises,
  is given by the world the run takes place in.
\<close>

text \<open>The entity classes, as the values \<^verbatim>\<open>_INSERT_ARGS\<close> and the client calls pass around.\<close>

datatype entity = ActionKey_class | AuditEntry_class | Organization_class | Package_class
  | Template_class | TemplateAsset_class | TemplateFile_class

text \<open>
  \<^verbatim>\<open>entity.TABLE_NAME\<close>. Three of the seven names are in the source (\<^verbatim>\<open>action_key\<close>,
  \<^verbatim>\<open>audit\<close>, \<^verbatim>\<open>organization\<close>), four are declared in the missing module; a table is named
  here by the class it belongs to, and the one statement the migrator builds itself,
  \<^verbatim>\<open>f'DELETE FROM {table};'\<close>, by its table.
\<close>

datatype table = TABLE_NAME entity

datatype query = DELETE_FROM table

text \<open>A record of any of the seven classes, as \<^verbatim>\<open>execute_loop\<close> receives it.\<close>

datatype entry = ActionKey_entry ActionKey | AuditEntry_entry AuditEntry
  | Organization_entry Organization | Package_entry Package | Template_entry Template
  | TemplateAsset_entry TemplateAsset | TemplateFile_entry TemplateFile

definition entry_ok :: "entry \<Rightarrow> bool" where
  "entry_ok i = (case i of
       ActionKey_entry x \<Rightarrow> ActionKey.integrity_ok x
     | AuditEntry_entry x \<Rightarrow> AuditEntry.integrity_ok x
     | Organization_entry x \<Rightarrow> Organization.integrity_ok x
     | Package_entry x \<Rightarrow> Package.integrity_ok x
     | Template_entry x \<Rightarrow> Template.integrity_ok x
     | TemplateAsset_entry x \<Rightarrow> TemplateAsset.integrity_ok x
     | TemplateFile_entry x \<Rightarrow> TemplateFile.integrity_ok x)"

text \<open>\<^verbatim>\<open>list_by_entity(entity)\<close>, for a class given as a value.\<close>

definition list_by_entity :: "entity \<Rightarrow> RegistryEntities \<Rightarrow> entry list" where
  "list_by_entity e s = (case e of
       ActionKey_class \<Rightarrow> map ActionKey_entry (action_keys s)
     | AuditEntry_class \<Rightarrow> map AuditEntry_entry (audit_entries s)
     | Organization_class \<Rightarrow> map Organization_entry (organizations s)
     | Package_class \<Rightarrow> map Package_entry (packages s)
     | Template_class \<Rightarrow> map Template_entry (templates s)
     | TemplateAsset_class \<Rightarrow> map TemplateAsset_entry (template_assets s)
     | TemplateFile_class \<Rightarrow> map TemplateFile_entry (template_files s))"

text \<open>The calls on the three clients.\<close>

datatype call =
    Pg_new_cursor
  | Pg_execute query
  | Pg_commit
  | Pg_disable_triggers table
  | Pg_enable_triggers table
  | Pg_execute_loop entity "entry list"
  | Pg_close
  | S3_bucket_exists
  | S3_count_templates
  | S3_delete_templates
  | S3_ensure_bucket
  | S3_store_template_asset string string string string
  | Mongo_update_now
  | Mongo_load_list entity
  | Mongo_load_nested entity entity string
  | Mongo_fetch_asset string

text \<open>
  The \<^verbatim>\<open>LOGGER\<close> lines that report a count or a violation, as data; the lines of fixed text
  are left out.
\<close>

datatype log_line =
    Log_deleted int table
  | Log_templates_in_bucket int
  | Log_violation string
  | Log_insert table nat nat
  | Log_migrating_assets nat
  | Log_assets_stored nat nat

text \<open>
  The world of one run: whether the \<open>n\<close>-th client call of the run raises, and what the calls
  that return something answer (\<^verbatim>\<open>cursor.rowcount\<close> after a delete, \<^verbatim>\<open>bucket_exists\<close>,
  \<^verbatim>\<open>count_templates\<close>, the lists \<^verbatim>\<open>load_list\<close> and \<^verbatim>\<open>load_nested\<close> build, \<^verbatim>\<open>fetch_asset\<close>,
  the tokens of \<^verbatim>\<open>uuid.uuid4\<close>).
\<close>

record world =
  raises :: "nat \<Rightarrow> bool"
  rowcount :: "table \<Rightarrow> int"
  bucket_exists :: bool
  count_templates :: int
  loaded :: RegistryEntities
  fetch_asset :: "string \<Rightarrow> string option"
  uuid4_tokens :: "nat \<Rightarrow> string"

text \<open>\<^verbatim>\<open>MigrationOptions\<close>: the two flags the migrator reads.\<close>

record options =
  dry_run :: bool
  fix_integrity :: bool

text \<open>The migrator: its entities, the client calls made so far, the log lines written so far.\<close>

record migrator =
  entities :: RegistryEntities
  calls :: "call list"
  logged :: "log_line list"

text \<open>
  How a run can stop early. Modelled from the spec: \<^verbatim>\<open>ERROR_HANDLER\<close> is imported from
  \<^verbatim>\<open>dsw2to3.errors\<close>, which is not part of the sources at hand; by the spec, a backend failure
  during cleanup or commit (\<^verbatim>\<open>ERROR_HANDLER.critical\<close>) and an integrity violation without
  \<^verbatim>\<open>fix-integrity\<close> (\<^verbatim>\<open>ERROR_HANDLER.error\<close>) abort the run. An exception no \<^verbatim>\<open>try\<close> block
  catches leaves \<^verbatim>\<open>migrate\<close> as well.
\<close>

datatype abort = Critical string | Error string | Uncaught_exception

type_synonym outcome = "(abort \<times> migrator) + migrator"

text \<open>The migrator a phase leaves behind, however it ended.\<close>

definition final :: "outcome \<Rightarrow> migrator" where
  "final r = (case r of Inl (e, m) \<Rightarrow> m | Inr m \<Rightarrow> m)"

text \<open>Sequencing: the second step runs if the first one returned.\<close>

definition then_do :: "outcome \<Rightarrow> (migrator \<Rightarrow> outcome) \<Rightarrow> outcome" where
  "then_do r f = (case r of Inl e \<Rightarrow> Inl e | Inr m \<Rightarrow> f m)"

text \<open>A client call: recorded, and then either it raises or it returns.\<close>

definition invoke :: "world \<Rightarrow> call \<Rightarrow> migrator \<Rightarrow> outcome" where
  "invoke w c m =
     (if raises w (length (calls m))
      then Inl (Uncaught_exception, m\<lparr>calls := calls m @ [c]\<rparr>)
      else Inr (m\<lparr>calls := calls m @ [c]\<rparr>))"

definition write_log :: "log_line \<Rightarrow> migrator \<Rightarrow> outcome" where
  "write_log l m = Inr (m\<lparr>logged := logged m @ [l]\<rparr>)"

text \<open>
  \<^verbatim>\<open>try: ... except Exception as e: ERROR_HANDLER.critical(cause=...)\<close>: an exception raised
  in the body becomes a critical error.
\<close>

definition try_critical :: "string \<Rightarrow> outcome \<Rightarrow> outcome" where
  "try_critical cause r =
     (case r of Inl (Uncaught_exception, m) \<Rightarrow> Inl (Critical cause, m) | _ \<Rightarrow> r)"

subsection \<open>The phases\<close>

text \<open>\<^verbatim>\<open>_TABLES_CLEANUP\<close> and \<^verbatim>\<open>_INSERT_ARGS\<close>, in the order of the source.\<close>

definition TABLES_CLEANUP :: "table list" where
  "TABLES_CLEANUP =
     [TABLE_NAME ActionKey_class, TABLE_NAME AuditEntry_class, TABLE_NAME Organization_class,
      TABLE_NAME TemplateAsset_class, TABLE_NAME TemplateFile_class, TABLE_NAME Template_class,
      TABLE_NAME Package_class]"

definition INSERT_ARGS :: "(entity \<times> bool) list" where
  "INSERT_ARGS =
     [(Package_class, True), (Template_class, False), (AuditEntry_class, False),
      (Organization_class, False), (ActionKey_class, False), (TemplateAsset_class, False),
      (TemplateFile_class, False)]"

text \<open>
  The \<^verbatim>\<open>for table in self._TABLES_CLEANUP\<close> loop of \<^verbatim>\<open>cleanup_postgres\<close>: the delete
  statement, then the log line with \<^verbatim>\<open>cursor.rowcount\<close>.
\<close>

primrec delete_tables :: "world \<Rightarrow> table list \<Rightarrow> migrator \<Rightarrow> outcome" where
  "delete_tables w [] m = Inr m"
| "delete_tables w (t # ts) m =
     then_do (invoke w (Pg_execute (DELETE_FROM t)) m) (\<lambda>m.
     then_do (write_log (Log_deleted (rowcount w t) t) m)
       (delete_tables w ts))"

text \<open>
  \<^verbatim>\<open>cleanup_postgres\<close>: cursor, deletes, and the commit unless this is a dry run, all inside
  the \<^verbatim>\<open>try\<close> block.
\<close>

definition cleanup_postgres :: "world \<Rightarrow> options \<Rightarrow> migrator \<Rightarrow> outcome" where
  "cleanup_postgres w opts m =
     try_critical ''PostgreSQL''
       (then_do (invoke w Pg_new_cursor m) (\<lambda>m.
        then_do (delete_tables w TABLES_CLEANUP m) (\<lambda>m.
        if \<not> dry_run opts then invoke w Pg_commit m else Inr m)))"

definition cleanup_s3 :: "world \<Rightarrow> options \<Rightarrow> migrator \<Rightarrow> outcome" where
  "cleanup_s3 w opts m =
     then_do (invoke w S3_bucket_exists m) (\<lambda>m.
     if bucket_exists w
     then then_do (invoke w S3_count_templates m) (\<lambda>m.
          then_do (write_log (Log_templates_in_bucket (count_templates w)) m) (\<lambda>m.
          if count_templates w > 0
          then (if \<not> dry_run opts then invoke w S3_delete_templates m else Inr m)
          else Inr m))
     else (if \<not> dry_run opts then invoke w S3_ensure_bucket m else Inr m))"

text \<open>\<^verbatim>\<open>self.entities.set_list(entity, lst)\<close>, as an update of the migrator.\<close>

definition set_list :: "(RegistryEntities \<Rightarrow> RegistryEntities) \<Rightarrow> migrator \<Rightarrow> outcome" where
  "set_list f m = Inr (m\<lparr>entities := f (entities m)\<rparr>)"

text \<open>
  \<^verbatim>\<open>load\<close>: the five \<^verbatim>\<open>load_list\<close> calls of \<^verbatim>\<open>_LOAD_ENTITIES_SIMPLE\<close> and the two
  \<^verbatim>\<open>load_nested\<close> calls of \<^verbatim>\<open>_LOAD_ENTITIES_NESTED\<close>, each followed by its \<^verbatim>\<open>set_list\<close>.
\<close>

definition load :: "world \<Rightarrow> migrator \<Rightarrow> outcome" where
  "load w m =
     then_do (invoke w Mongo_update_now m) (\<lambda>m.
     then_do (invoke w (Mongo_load_list ActionKey_class) m) (\<lambda>m.
     then_do (set_list (\<lambda>s. s\<lparr>action_keys := action_keys (loaded w)\<rparr>) m) (\<lambda>m.
     then_do (invoke w (Mongo_load_list AuditEntry_class) m) (\<lambda>m.
     then_do (set_list (\<lambda>s. s\<lparr>audit_entries := audit_entries (loaded w)\<rparr>) m) (\<lambda>m.
     then_do (invoke w (Mongo_load_list Organization_class) m) (\<lambda>m.
     then_do (set_list (\<lambda>s. s\<lparr>organizations := organizations (loaded w)\<rparr>) m) (\<lambda>m.
     then_do (invoke w (Mongo_load_list Package_class) m) (\<lambda>m.
     then_do (set_list (\<lambda>s. s\<lparr>packages := packages (loaded w)\<rparr>) m) (\<lambda>m.
     then_do (invoke w (Mongo_load_list Template_class) m) (\<lambda>m.
     then_do (set_list (\<lambda>s. s\<lparr>templates := templates (loaded w)\<rparr>) m) (\<lambda>m.
     then_do (invoke w (Mongo_load_nested Template_class TemplateAsset_class ''assets'') m) (\<lambda>m.
     then_do (set_list (\<lambda>s. s\<lparr>template_assets := template_assets (loaded w)\<rparr>) m) (\<lambda>m.
     then_do (invoke w (Mongo_load_nested Template_class TemplateFile_class ''files'') m) (\<lambda>m.
     set_list (\<lambda>s. s\<lparr>template_files := template_files (loaded w)\<rparr>) m))))))))))))))"

text \<open>
  \<^verbatim>\<open>RegistryMigrator.check_integrity\<close>: the entities' \<^verbatim>\<open>check_integrity\<close>, one warning per
  issue, and \<^verbatim>\<open>ERROR_HANDLER.error\<close> when there are issues and \<^verbatim>\<open>fix_integrity\<close> is off.
\<close>

definition migrator_check_integrity :: "world \<Rightarrow> options \<Rightarrow> migrator \<Rightarrow> outcome" where
  "migrator_check_integrity w opts m =
     (case check_integrity (uuid4_tokens w) (entities m) of
        (issues, s') \<Rightarrow>
          (let m' = m\<lparr>entities := s', logged := logged m @ map Log_violation issues\<rparr>
           in if \<not> fix_integrity opts \<and> length issues > 0
              then Inl (Error ''Integrity'', m')
              else Inr m'))"

text \<open>
  \<^verbatim>\<open>_run_insert\<close>: \<^verbatim>\<open>ok_instances\<close> are the instances whose marker \<^verbatim>\<open>is True\<close>; only they are
  handed to \<^verbatim>\<open>execute_loop\<close>.
\<close>

definition run_insert :: "world \<Rightarrow> entity \<Rightarrow> bool \<Rightarrow> migrator \<Rightarrow> outcome" where
  "run_insert w e disable_triggers m =
     (let instances = list_by_entity e (entities m);
          ok_instances = filter entry_ok instances
      in then_do (write_log (Log_insert (TABLE_NAME e) (length ok_instances) (length instances)) m) (\<lambda>m.
         then_do (if disable_triggers then invoke w (Pg_disable_triggers (TABLE_NAME e)) m else Inr m) (\<lambda>m.
         then_do (invoke w (Pg_execute_loop e ok_instances) m) (\<lambda>m.
         if disable_triggers then invoke w (Pg_enable_triggers (TABLE_NAME e)) m else Inr m))))"

primrec run_inserts :: "world \<Rightarrow> (entity \<times> bool) list \<Rightarrow> migrator \<Rightarrow> outcome" where
  "run_inserts w [] m = Inr m"
| "run_inserts w (a # args) m =
     then_do (run_insert w (fst a) (snd a) m) (run_inserts w args)"

text \<open>
  \<^verbatim>\<open>insert\<close>: the loop over \<^verbatim>\<open>_INSERT_ARGS\<close> stands outside the \<^verbatim>\<open>try\<close> block, the commit
  inside it.
\<close>

definition insert_phase :: "world \<Rightarrow> options \<Rightarrow> migrator \<Rightarrow> outcome" where
  "insert_phase w opts m =
     then_do (run_inserts w INSERT_ARGS m) (\<lambda>m.
     try_critical ''PostgreSQL'' (if \<not> dry_run opts then invoke w Pg_commit m else Inr m))"

text \<open>
  The \<^verbatim>\<open>for asset in assets\<close> loop of \<^verbatim>\<open>migrate_template_assets\<close>, with its two counters,
  and the log line after it.
\<close>

primrec transfer_assets ::
  "world \<Rightarrow> options \<Rightarrow> TemplateAsset list \<Rightarrow> nat \<Rightarrow> nat \<Rightarrow> migrator \<Rightarrow> outcome" where
  "transfer_assets w opts [] counter skipped m = write_log (Log_assets_stored counter skipped) m"
| "transfer_assets w opts (asset # assets) counter skipped m =
     then_do (invoke w (Mongo_fetch_asset (TemplateAsset.original_uuid asset)) m) (\<lambda>m.
     case fetch_asset w (TemplateAsset.original_uuid asset) of
       None \<Rightarrow> transfer_assets w opts assets counter (skipped + 1) m
     | Some data \<Rightarrow>
         then_do (if \<not> dry_run opts
                  then invoke w (S3_store_template_asset (TemplateAsset.template_id asset)
                         (TemplateAsset.uuid asset) (TemplateAsset.content_type asset) data) m
                  else Inr m)
           (transfer_assets w opts assets (counter + 1) skipped))"

definition migrate_template_assets :: "world \<Rightarrow> options \<Rightarrow> migrator \<Rightarrow> outcome" where
  "migrate_template_assets w opts m =
     (let assets = valid_entries TemplateAsset.integrity_ok (template_assets (entities m))
      in then_do (write_log (Log_migrating_assets (length assets)) m)
           (transfer_assets w opts assets 0 0))"

text \<open>\<^verbatim>\<open>finish\<close>: \<^verbatim>\<open>self.postgres.close()\<close>, and nothing else.\<close>

definition finish :: "world \<Rightarrow> migrator \<Rightarrow> outcome" where
  "finish w m = invoke w Pg_close m"

text \<open>\<^verbatim>\<open>migrate\<close>: the six phases in order. It does not call \<^verbatim>\<open>finish\<close>.\<close>

definition migrate :: "world \<Rightarrow> options \<Rightarrow> migrator \<Rightarrow> outcome" where
  "migrate w opts m =
     then_do (cleanup_postgres w opts m) (\<lambda>m.
     then_do (cleanup_s3 w opts m) (\<lambda>m.
     then_do (load w m) (\<lambda>m.
     then_do (migrator_check_integrity w opts m) (\<lambda>m.
     then_do (insert_phase w opts m)
       (migrate_template_assets w opts)))))"

text \<open>\<^verbatim>\<open>__init__\<close>: empty entities; no call has been recorded, no line logged.\<close>

definition new_migrator :: migrator where
  "new_migrator = \<lparr>entities = empty_entities, calls = [], logged = []\<rparr>"

section \<open>What a phase adds to the trace\<close>

text \<open>
  \<open>new_calls f m\<close>: the client calls phase \<open>f\<close> makes when it starts from \<open>m\<close>. \<open>adds P f\<close>:
  whatever the world does, \<open>f\<close> only appends calls to the trace, every call it appends
  satisfies \<open>P\<close> (which may look at the entities \<open>f\<close> started from), and \<open>f\<close> leaves the
  entities as they are.
\<close>

definition new_calls :: "(migrator \<Rightarrow> outcome) \<Rightarrow> migrator \<Rightarrow> call list" where
  "new_calls f m = drop (length (calls m)) (calls (final (f m)))"

definition adds :: "(RegistryEntities \<Rightarrow> call \<Rightarrow> bool) \<Rightarrow> (migrator \<Rightarrow> outcome) \<Rightarrow> bool" where
  "adds P f \<longleftrightarrow> (\<forall>m. \<exists>new. calls (final (f m)) = calls m @ new
      \<and> list_all (P (entities m)) new \<and> entities (final (f m)) = entities m)"

lemma addsD:
  assumes "adds P f"
  shows "calls (final (f m)) = calls m @ new_calls f m" and "list_all (P (entities m)) (new_calls f m)"
    and "entities (final (f m)) = entities m"
  using assms by (auto simp: adds_def new_calls_def dest: spec [where x = m])

lemma adds_Inr: "adds P Inr"
  by (simp add: adds_def final_def)

lemma adds_invoke: "(\<And>s. P s c) \<Longrightarrow> adds P (invoke w c)"
  by (simp add: adds_def final_def invoke_def)

lemma adds_write_log: "adds P (write_log l)"
  by (simp add: adds_def final_def write_log_def)

lemma adds_then:
  assumes "adds P f" and "adds P g"
  shows "adds P (\<lambda>m. then_do (f m) g)"
  unfolding adds_def
proof
  fix m
  show "\<exists>new. calls (final (then_do (f m) g)) = calls m @ new \<and> list_all (P (entities m)) new
      \<and> entities (final (then_do (f m) g)) = entities m"
  proof (cases "f m")
    case (Inl e)
    then have "final (then_do (f m) g) = final (f m)" by (simp add: then_do_def)
    with addsD [OF assms(1), of m] show ?thesis by auto
  next
    case (Inr m')
    then have "final (then_do (f m) g) = final (g m')" and "final (f m) = m'"
      by (simp_all add: then_do_def final_def)
    with addsD [OF assms(1), of m] addsD [OF assms(2), of m'] show ?thesis by auto
  qed
qed

lemma adds_try: "adds P f \<Longrightarrow> adds P (\<lambda>m. try_critical c (f m))"
proof -
  have "final (try_critical c r) = final r" for r
    by (simp add: try_critical_def final_def split: sum.splits prod.splits abort.splits)
  then show "adds P f \<Longrightarrow> adds P (\<lambda>m. try_critical c (f m))"
    by (simp add: adds_def)
qed

lemma adds_if:
  "(b \<Longrightarrow> adds P f) \<Longrightarrow> (\<not> b \<Longrightarrow> adds P g) \<Longrightarrow> adds P (\<lambda>m. if b then f m else g m)"
  by (cases b) (simp_all add: adds_def)

lemma adds_delete_tables:
  "(\<And>s t. P s (Pg_execute (DELETE_FROM t))) \<Longrightarrow> adds P (delete_tables w ts)"
proof (induction ts)
  case Nil
  have "delete_tables w [] = Inr" by (rule ext) simp
  then show ?case by (simp add: adds_Inr)
next
  case (Cons t ts)
  have "delete_tables w (t # ts) = (\<lambda>m. then_do (invoke w (Pg_execute (DELETE_FROM t)) m) (\<lambda>m.
     then_do (write_log (Log_deleted (rowcount w t) t) m) (delete_tables w ts)))"
    by (rule ext) simp
  then show ?case
    using Cons by (auto intro!: adds_then adds_invoke adds_write_log)
qed


lemma adds_mono: "adds P f \<Longrightarrow> (\<And>s c. P s c \<Longrightarrow> Q s c) \<Longrightarrow> adds Q f"
proof -
  assume a: "adds P f" and i: "\<And>s c. P s c \<Longrightarrow> Q s c"
  show "adds Q f"
    unfolding adds_def
  proof
    fix m
    from addsD [OF a, of m] i have "list_all (Q (entities m)) (new_calls f m)"
      by (simp add: list_all_iff)
    with addsD [OF a, of m] show "\<exists>new. calls (final (f m)) = calls m @ new
        \<and> list_all (Q (entities m)) new \<and> entities (final (f m)) = entities m"
      by blast
  qed
qed

lemma adds_cleanup_postgres:
  assumes "\<And>s. P s Pg_new_cursor" and "\<And>s t. P s (Pg_execute (DELETE_FROM t))"
    and "\<And>s. \<not> dry_run opts \<Longrightarrow> P s Pg_commit"
  shows "adds P (cleanup_postgres w opts)"
proof -
  have "cleanup_postgres w opts = (\<lambda>m. try_critical ''PostgreSQL''
       (then_do (invoke w Pg_new_cursor m) (\<lambda>m.
        then_do (delete_tables w TABLES_CLEANUP m) (\<lambda>m.
        if \<not> dry_run opts then invoke w Pg_commit m else Inr m))))"
    by (rule ext) (simp add: cleanup_postgres_def)
  then show ?thesis
    using assms
    by (auto intro!: adds_try adds_then adds_invoke adds_delete_tables adds_if adds_Inr)
qed

lemma adds_cleanup_s3:
  assumes "\<And>s. P s S3_bucket_exists" and "\<And>s. P s S3_count_templates"
    and "\<And>s. \<not> dry_run opts \<Longrightarrow> P s S3_delete_templates"
    and "\<And>s. \<not> dry_run opts \<Longrightarrow> P s S3_ensure_bucket"
  shows "adds P (cleanup_s3 w opts)"
proof -
  have "cleanup_s3 w opts = (\<lambda>m. then_do (invoke w S3_bucket_exists m) (\<lambda>m.
     if bucket_exists w
     then then_do (invoke w S3_count_templates m) (\<lambda>m.
          then_do (write_log (Log_templates_in_bucket (count_templates w)) m) (\<lambda>m.
          if count_templates w > 0
          then (if \<not> dry_run opts then invoke w S3_delete_templates m else Inr m)
          else Inr m))
     else (if \<not> dry_run opts then invoke w S3_ensure_bucket m else Inr m)))"
    by (rule ext) (simp add: cleanup_s3_def)
  then show ?thesis
    using assms
    by (auto intro!: adds_then adds_invoke adds_if adds_Inr adds_write_log)
qed

text \<open>What \<^verbatim>\<open>_run_insert\<close> may add to the trace.\<close>

definition insert_call :: "options \<Rightarrow> RegistryEntities \<Rightarrow> call \<Rightarrow> bool" where
  "insert_call opts s c \<longleftrightarrow>
     (case c of
        Pg_execute_loop e xs \<Rightarrow> xs = filter entry_ok (list_by_entity e s)
      | Pg_disable_triggers t \<Rightarrow> t = TABLE_NAME Package_class
      | Pg_enable_triggers t \<Rightarrow> t = TABLE_NAME Package_class
      | Pg_commit \<Rightarrow> \<not> dry_run opts
      | _ \<Rightarrow> False)"

lemma adds_run_insert:
  "dt \<longrightarrow> e = Package_class \<Longrightarrow> adds (insert_call opts) (run_insert w e dt)"
  by (simp add: adds_def run_insert_def Let_def then_do_def invoke_def write_log_def final_def
      insert_call_def)

lemma adds_run_inserts:
  "\<forall>a\<in>set args. snd a \<longrightarrow> fst a = Package_class \<Longrightarrow> adds (insert_call opts) (run_inserts w args)"
proof (induction args)
  case Nil
  have "run_inserts w [] = Inr" by (rule ext) simp
  then show ?case by (simp add: adds_Inr)
next
  case (Cons a args)
  have "run_inserts w (a # args) = (\<lambda>m. then_do (run_insert w (fst a) (snd a) m) (run_inserts w args))"
    by (rule ext) simp
  then show ?case
    using Cons by (auto intro!: adds_then adds_run_insert)
qed

lemma adds_insert_phase: "adds (insert_call opts) (insert_phase w opts)"
proof -
  have "insert_phase w opts = (\<lambda>m. then_do (run_inserts w INSERT_ARGS m) (\<lambda>m.
     try_critical ''PostgreSQL'' (if \<not> dry_run opts then invoke w Pg_commit m else Inr m)))"
    by (rule ext) (simp add: insert_phase_def)
  moreover have "adds (insert_call opts) (run_inserts w INSERT_ARGS)"
    by (rule adds_run_inserts) (simp add: INSERT_ARGS_def)
  ultimately show ?thesis
    by (auto intro!: adds_then adds_try adds_if adds_invoke adds_Inr simp: insert_call_def)
qed


text \<open>
  The calls the insertion phase makes before its commit when nothing raises: for each class
  of \<^verbatim>\<open>_INSERT_ARGS\<close> in turn, \<^verbatim>\<open>execute_loop\<close> on the instances whose marker is true, with
  the triggers of the package table disabled before its loop and enabled after it.
\<close>

definition insert_trace :: "RegistryEntities \<Rightarrow> call list" where
  "insert_trace s =
     [Pg_disable_triggers (TABLE_NAME Package_class),
      Pg_execute_loop Package_class (filter entry_ok (list_by_entity Package_class s)),
      Pg_enable_triggers (TABLE_NAME Package_class),
      Pg_execute_loop Template_class (filter entry_ok (list_by_entity Template_class s)),
      Pg_execute_loop AuditEntry_class (filter entry_ok (list_by_entity AuditEntry_class s)),
      Pg_execute_loop Organization_class (filter entry_ok (list_by_entity Organization_class s)),
      Pg_execute_loop ActionKey_class (filter entry_ok (list_by_entity ActionKey_class s)),
      Pg_execute_loop TemplateAsset_class (filter entry_ok (list_by_entity TemplateAsset_class s)),
      Pg_execute_loop TemplateFile_class (filter entry_ok (list_by_entity TemplateFile_class s))]"

lemma insert_phase_no_raise:
  assumes "\<forall>n. \<not> raises w n"
  shows "new_calls (insert_phase w opts) m
           = insert_trace (entities m) @ (if dry_run opts then [] else [Pg_commit])"
  using assms
  by (simp add: new_calls_def insert_phase_def INSERT_ARGS_def run_insert_def Let_def then_do_def
      invoke_def write_log_def final_def try_critical_def insert_trace_def)

lemma insert_phase_prefix:
  "prefix (new_calls (insert_phase w opts) m)
     (insert_trace (entities m) @ (if dry_run opts then [] else [Pg_commit]))"
  by (simp add: new_calls_def insert_phase_def INSERT_ARGS_def run_insert_def Let_def then_do_def
      invoke_def write_log_def final_def try_critical_def insert_trace_def)


text \<open>\<open>appends P f\<close>: as \<open>adds\<close>, for a phase that may change the entities.\<close>

definition appends :: "(call \<Rightarrow> bool) \<Rightarrow> (migrator \<Rightarrow> outcome) \<Rightarrow> bool" where
  "appends P f \<longleftrightarrow> (\<forall>m. \<exists>new. calls (final (f m)) = calls m @ new \<and> list_all P new)"

lemma appendsD:
  assumes "appends P f"
  shows "calls (final (f m)) = calls m @ new_calls f m" and "list_all P (new_calls f m)"
  using assms by (auto simp: appends_def new_calls_def dest: spec [where x = m])

lemma adds_appends: "adds (\<lambda>s. P) f \<Longrightarrow> appends P f"
  by (auto simp: adds_def appends_def)

lemma appends_invoke: "P c \<Longrightarrow> appends P (invoke w c)"
  by (simp add: appends_def final_def invoke_def)

lemma appends_set_list: "appends P (set_list f)"
  by (simp add: appends_def final_def set_list_def)

lemma appends_then:
  assumes "appends P f" and "appends P g"
  shows "appends P (\<lambda>m. then_do (f m) g)"
  unfolding appends_def
proof
  fix m
  show "\<exists>new. calls (final (then_do (f m) g)) = calls m @ new \<and> list_all P new"
  proof (cases "f m")
    case (Inl e)
    then have "final (then_do (f m) g) = final (f m)" by (simp add: then_do_def)
    with appendsD [OF assms(1), of m] show ?thesis by auto
  next
    case (Inr m')
    then have "final (then_do (f m) g) = final (g m')" and "final (f m) = m'"
      by (simp_all add: then_do_def final_def)
    with appendsD [OF assms(1), of m] appendsD [OF assms(2), of m'] show ?thesis by auto
  qed
qed

lemma appends_load:
  assumes "P Mongo_update_now" and "\<And>e. P (Mongo_load_list e)" and "\<And>a b f. P (Mongo_load_nested a b f)"
  shows "appends P (load w)"
proof -
  have "load w = (\<lambda>m.
     then_do (invoke w Mongo_update_now m) (\<lambda>m.
     then_do (invoke w (Mongo_load_list ActionKey_class) m) (\<lambda>m.
     then_do (set_list (\<lambda>s. s\<lparr>action_keys := action_keys (loaded w)\<rparr>) m) (\<lambda>m.
     then_do (invoke w (Mongo_load_list AuditEntry_class) m) (\<lambda>m.
     then_do (set_list (\<lambda>s. s\<lparr>audit_entries := audit_entries (loaded w)\<rparr>) m) (\<lambda>m.
     then_do (invoke w (Mongo_load_list Organization_class) m) (\<lambda>m.
     then_do (set_list (\<lambda>s. s\<lparr>organizations := organizations (loaded w)\<rparr>) m) (\<lambda>m.
     then_do (invoke w (Mongo_load_list Package_class) m) (\<lambda>m.
     then_do (set_list (\<lambda>s. s\<lparr>packages := packages (loaded w)\<rparr>) m) (\<lambda>m.
     then_do (invoke w (Mongo_load_list Template_class) m) (\<lambda>m.
     then_do (set_list (\<lambda>s. s\<lparr>templates := templates (loaded w)\<rparr>) m) (\<lambda>m.
     then_do (invoke w (Mongo_load_nested Template_class TemplateAsset_class ''assets'') m) (\<lambda>m.
     then_do (set_list (\<lambda>s. s\<lparr>template_assets := template_assets (loaded w)\<rparr>) m) (\<lambda>m.
     then_do (invoke w (Mongo_load_nested Template_class TemplateFile_class ''files'') m) (\<lambda>m.
     set_list (\<lambda>s. s\<lparr>template_files := template_files (loaded w)\<rparr>) m)))))))))))))))"
    by (rule ext) (simp add: load_def)
  then show ?thesis
    using assms by (auto intro!: appends_then appends_invoke appends_set_list)
qed

lemma appends_migrator_check_integrity: "appends P (migrator_check_integrity w opts)"
  by (simp add: appends_def migrator_check_integrity_def final_def Let_def case_prod_unfold)

text \<open>
  What the asset loop may add to the trace: a \<^verbatim>\<open>fetch_asset\<close>, or, outside a dry run, a
  \<^verbatim>\<open>store_template_asset\<close> of one of the assets it iterates over, with the data fetched for it.
\<close>

definition asset_call :: "world \<Rightarrow> options \<Rightarrow> TemplateAsset list \<Rightarrow> call \<Rightarrow> bool" where
  "asset_call w opts assets c \<longleftrightarrow>
     (case c of
        Mongo_fetch_asset u \<Rightarrow> True
      | S3_store_template_asset t u ct d \<Rightarrow>
          \<not> dry_run opts \<and>
          (\<exists>a\<in>set assets. t = TemplateAsset.template_id a \<and> u = TemplateAsset.uuid a
             \<and> ct = TemplateAsset.content_type a
             \<and> fetch_asset w (TemplateAsset.original_uuid a) = Some d)
      | _ \<Rightarrow> False)"

lemma asset_call_Cons: "asset_call w opts assets c \<Longrightarrow> asset_call w opts (a # assets) c"
  by (auto simp: asset_call_def split: call.splits)

lemma asset_call_fetch: "asset_call w opts assets (Mongo_fetch_asset u)"
  by (simp add: asset_call_def)

lemma asset_call_store:
  "\<not> dry_run opts \<Longrightarrow> fetch_asset w (TemplateAsset.original_uuid a) = Some d \<Longrightarrow>
     asset_call w opts (a # assets) (S3_store_template_asset (TemplateAsset.template_id a)
       (TemplateAsset.uuid a) (TemplateAsset.content_type a) d)"
  by (simp add: asset_call_def)

lemma adds_transfer_assets:
  "adds (\<lambda>s. asset_call w opts assets) (transfer_assets w opts assets counter skipped)"
proof (induction assets arbitrary: counter skipped)
  case Nil
  have "transfer_assets w opts [] counter skipped = write_log (Log_assets_stored counter skipped)"
    by (rule ext) simp
  then show ?case by (simp add: adds_write_log)
next
  case (Cons a assets)
  have ih: "adds (\<lambda>s. asset_call w opts (a # assets)) (transfer_assets w opts assets c k)" for c k
    by (rule adds_mono [OF Cons.IH]) (rule asset_call_Cons)
  show ?case
  proof (cases "fetch_asset w (TemplateAsset.original_uuid a)")
    case None
    then have "transfer_assets w opts (a # assets) counter skipped =
        (\<lambda>m. then_do (invoke w (Mongo_fetch_asset (TemplateAsset.original_uuid a)) m)
           (transfer_assets w opts assets counter (skipped + 1)))"
      by (intro ext) simp
    then show ?thesis
      using ih by (auto intro!: adds_then adds_invoke asset_call_fetch)
  next
    case (Some d)
    then have "transfer_assets w opts (a # assets) counter skipped =
        (\<lambda>m. then_do (invoke w (Mongo_fetch_asset (TemplateAsset.original_uuid a)) m) (\<lambda>m.
           then_do (if \<not> dry_run opts
                  then invoke w (S3_store_template_asset (TemplateAsset.template_id a)
                         (TemplateAsset.uuid a) (TemplateAsset.content_type a) d) m
                  else Inr m)
           (transfer_assets w opts assets (counter + 1) skipped)))"
      by (intro ext) simp
    then show ?thesis
      using ih Some
      by (auto intro!: adds_then adds_invoke adds_if adds_Inr asset_call_fetch asset_call_store)
  qed
qed

lemma adds_migrate_template_assets:
  "adds (\<lambda>s. asset_call w opts (valid_entries TemplateAsset.integrity_ok (template_assets s)))
     (migrate_template_assets w opts)"
  unfolding adds_def
proof
  fix m :: migrator
  let ?assets = "valid_entries TemplateAsset.integrity_ok (template_assets (entities m))"
  have "adds (\<lambda>s. asset_call w opts ?assets)
      (\<lambda>m. then_do (write_log (Log_migrating_assets (length ?assets)) m)
           (transfer_assets w opts ?assets 0 0))"
    by (intro adds_then adds_write_log adds_transfer_assets)
  from addsD [OF this, of m]
  show "\<exists>new. calls (final (migrate_template_assets w opts m)) = calls m @ new
      \<and> list_all (asset_call w opts ?assets) new
      \<and> entities (final (migrate_template_assets w opts m)) = entities m"
    by (auto simp: migrate_template_assets_def Let_def)
qed


end
